theory Spec2Isabelle
  imports Main
begin

section \<open>The worker of codalab-worksheets: data model\<close>

text \<open>
  The embedding follows \<^verbatim>\<open>src/worker/codalabworker/worker.py\<close> (class \<^verbatim>\<open>Worker\<close>) and
  \<^verbatim>\<open>src/codalab/lib/bundle_cli.py\<close> (\<^verbatim>\<open>do_rm_user_command\<close>). Python exceptions are values
  of \<open>exn\<close>; a function that may raise returns the exception next to the state it has
  reached so far, since Python keeps the mutations made before the raise.
\<close>

datatype exn =
    KeyError | TypeError | AssertionError | BundleServiceException | OtherException string

type_synonym uuid = string

text \<open>
  The fields of \<^verbatim>\<open>Worker.__init__\<close> that the modelled methods read or write. \<open>runs\<close> stands
  for the live runs held by \<^verbatim>\<open>self._worker_state_manager\<close>: each with its uuid and the cpu
  and gpu set given to its \<^verbatim>\<open>Run\<close>.
\<close>

record worker =
  cpuset :: "int set"
  gpuset :: "int set"
  cpuset_free :: "int set"
  gpuset_free :: "int set"
  runs :: "(uuid \<times> int set \<times> int set) list"
  exiting :: bool
  should_upgrade :: bool
  last_checkin_successful :: bool

definition Worker_init :: "int set \<Rightarrow> int set \<Rightarrow> worker" where
  "Worker_init cs gs =
     \<lparr>cpuset = cs, gpuset = gs, cpuset_free = cs, gpuset_free = gs, runs = [],
      exiting = False, should_upgrade = False, last_checkin_successful = False\<rparr>"

section \<open>The resource pool\<close>

text \<open>
  Python's \<^verbatim>\<open>set.pop()\<close> removes and returns an arbitrary member, and raises
  \<^verbatim>\<open>KeyError\<close> on an empty set. Which member is not fixed by the language, so the choice
  is a parameter: a function from the set to the member it yields. \<open>valid_choice\<close> is all
  that \<^verbatim>\<open>set.pop()\<close> promises about it.
\<close>

type_synonym chooser = "int set \<Rightarrow> int"

definition valid_choice :: "chooser \<Rightarrow> bool" where
  "valid_choice ch = (\<forall>S. finite S \<longrightarrow> S \<noteq> {} \<longrightarrow> ch S \<in> S)"

definition set_pop :: "chooser \<Rightarrow> int set \<Rightarrow> exn + (int \<times> int set)" where
  "set_pop ch s = (if s = {} then Inl KeyError else Inr (ch s, s - {ch s}))"

text \<open>
  \<^verbatim>\<open>for i in range(n): acc.add(free.pop())\<close>. The result is the exception raised (if
  any), the set collected and the free set left.
\<close>

fun pop_into :: "chooser \<Rightarrow> nat \<Rightarrow> int set \<Rightarrow> int set \<Rightarrow> exn option \<times> int set \<times> int set" where
  "pop_into ch 0 acc free = (None, acc, free)"
| "pop_into ch (Suc k) acc free =
     (case set_pop ch free of
        Inl e \<Rightarrow> (Some e, acc, free)
      | Inr (x, free') \<Rightarrow> pop_into ch k (insert x acc) free')"

text \<open>
  \<^verbatim>\<open>_allocate_cpu_and_gpu_sets\<close>. \<^verbatim>\<open>range(n)\<close> is empty for a negative \<open>n\<close>, which is
  \<open>nat n = 0\<close> iterations.
\<close>

definition allocate_cpu_and_gpu_sets ::
  "chooser \<Rightarrow> chooser \<Rightarrow> worker \<Rightarrow> int \<Rightarrow> int \<Rightarrow> (exn + int set \<times> int set) \<times> worker" where
  "allocate_cpu_and_gpu_sets chc chg w request_cpus request_gpus =
     (if int (card (cpuset_free w)) < request_cpus \<or> int (card (gpuset_free w)) < request_gpus
      then (Inr ({}, {}), w)
      else
        (case pop_into chc (nat request_cpus) {} (cpuset_free w) of
           (Some e, cs, fc) \<Rightarrow> (Inl e, w\<lparr>cpuset_free := fc\<rparr>)
         | (None, cs, fc) \<Rightarrow>
             (case pop_into chg (nat request_gpus) {} (gpuset_free w) of
                (Some e, gs, fg) \<Rightarrow> (Inl e, w\<lparr>cpuset_free := fc, gpuset_free := fg\<rparr>)
              | (None, gs, fg) \<Rightarrow> (Inr (cs, gs), w\<lparr>cpuset_free := fc, gpuset_free := fg\<rparr>))))"

text \<open>\<^verbatim>\<open>_deallocate_cpu_and_sets\<close>: both free sets are united in place with the arguments.\<close>

definition deallocate_cpu_and_sets :: "worker \<Rightarrow> int set \<Rightarrow> int set \<Rightarrow> worker" where
  "deallocate_cpu_and_sets w cs gs =
     w\<lparr>cpuset_free := cpuset_free w \<union> cs, gpuset_free := gpuset_free w \<union> gs\<rparr>"

subsection \<open>Sequences of pool calls\<close>

text \<open>
  A sequence of calls on the pool. \<open>Allocate\<close> is a call of
  \<^verbatim>\<open>_allocate_cpu_and_gpu_sets\<close> (with the members its two \<^verbatim>\<open>pop\<close> loops yield); the pair
  of sets it returns is held by a live run until released. \<open>Release k\<close> is the call of
  \<^verbatim>\<open>_deallocate_cpu_and_sets\<close> by the \<open>k\<close>-th live run with the sets it holds, after
  which the run is no longer live. Releasing sets that no live run holds is outside the
  pool's contract and is not part of a sequence.
\<close>

datatype pool_call = Allocate chooser chooser int int | Release nat

type_synonym pool_state = "worker \<times> (int set \<times> int set) list"

fun pool_step :: "pool_state \<Rightarrow> pool_call \<Rightarrow> pool_state" where
  "pool_step (w, live) (Allocate chc chg n_cpus n_gpus) =
     (case allocate_cpu_and_gpu_sets chc chg w n_cpus n_gpus of
        (Inl e, w') \<Rightarrow> (w', live)
      | (Inr held, w') \<Rightarrow> (w', live @ [held]))"
| "pool_step (w, live) (Release k) =
     (if k < length live
      then (deallocate_cpu_and_sets w (fst (live ! k)) (snd (live ! k)),
            take k live @ drop (Suc k) live)
      else (w, live))"

fun pool_run :: "pool_state \<Rightarrow> pool_call list \<Rightarrow> pool_state" where
  "pool_run s [] = s"
| "pool_run s (c # cs) = pool_run (pool_step s c) cs"

fun valid_call :: "pool_call \<Rightarrow> bool" where
  "valid_call (Allocate chc chg n_cpus n_gpus) = (valid_choice chc \<and> valid_choice chg)"
| "valid_call (Release k) = True"

fun disjoint_family :: "int set list \<Rightarrow> bool" where
  "disjoint_family [] = True"
| "disjoint_family (s # ss) = ((\<forall>t \<in> set ss. s \<inter> t = {}) \<and> disjoint_family ss)"

text \<open>
  Conservation for one kind of resource: the free set and the live sets cover the
  configured total, and the free set and the live sets are pairwise disjoint.
\<close>

definition conserved :: "int set \<Rightarrow> int set \<Rightarrow> int set list \<Rightarrow> bool" where
  "conserved configured free held =
     (free \<union> \<Union> (set held) = configured \<and> disjoint_family (free # held))"

definition pool_inv :: "pool_state \<Rightarrow> bool" where
  "pool_inv s =
     (case s of (w, live) \<Rightarrow>
        conserved (cpuset w) (cpuset_free w) (map fst live) \<and>
        conserved (gpuset w) (gpuset_free w) (map snd live))"

text \<open>The lowest \<open>n\<close> members of a set, for the selection policy the specification names.\<close>

fun lowest :: "nat \<Rightarrow> int set \<Rightarrow> int set" where
  "lowest 0 s = {}"
| "lowest (Suc n) s = (if s = {} then {} else insert (Min s) (lowest n (s - {Min s})))"

section \<open>Worker._run\<close>

text \<open>
  The response of a check-in is a message tagged with its type; of a \<^verbatim>\<open>run\<close> message
  the model keeps the uuid of the bundle and the requested cpu and gpu counts.
\<close>

datatype message =
    RunMessage uuid int int
  | ReadMessage
  | NetcatMessage
  | WriteMessage
  | KillMessage uuid
  | UpgradeMessage
  | OtherMessage

text \<open>What the worker does that can be seen from outside, recorded in order.\<close>

datatype event =
    LogUnsuccessfulAllocation uuid
  | RunCreated uuid "int set" "int set"
  | RunStarted uuid
  | CheckinCall
  | Dispatched message
  | SaveState
  | LogConnected
  | PrintExc exn
  | Sleep nat
  | Checkout
  | GetCode
  | RemoveWorkerDir
  | UnTarCode
  | Exit nat

text \<open>
  \<^verbatim>\<open>_run(bundle, resources)\<close>, the handler of a \<^verbatim>\<open>run\<close> message (named \<open>handle_run\<close>
  to tell it from \<^verbatim>\<open>Worker.run\<close>, the main loop): \<open>started\<close> is what \<^verbatim>\<open>run.run()\<close>
  returns. A started run is added to the state manager's runs; one that failed to start
  gives its sets back.
\<close>

definition handle_run ::
  "chooser \<Rightarrow> chooser \<Rightarrow> bool \<Rightarrow> worker \<Rightarrow> uuid \<Rightarrow> int \<Rightarrow> int \<Rightarrow> exn option \<times> worker \<times> event list" where
  "handle_run chc chg started w bundle_uuid request_cpus request_gpus =
     (case allocate_cpu_and_gpu_sets chc chg w request_cpus request_gpus of
        (Inl e, w') \<Rightarrow> (Some e, w', [])
      | (Inr (cs, gs), w') \<Rightarrow>
          if card cs = 0 \<and> card gs = 0
          then (None, w', [LogUnsuccessfulAllocation bundle_uuid])
          else if started
          then (None, w'\<lparr>runs := runs w' @ [(bundle_uuid, cs, gs)]\<rparr>,
                [RunCreated bundle_uuid cs gs, RunStarted bundle_uuid])
          else (None, deallocate_cpu_and_sets w' cs gs, [RunCreated bundle_uuid cs gs]))"

section \<open>The main-loop guard\<close>

definition is_exiting :: "worker \<Rightarrow> bool" where
  "is_exiting w = exiting w"

text \<open>
  Modelled from the spec: \<^verbatim>\<open>WorkerStateManager.has_runs\<close> (module
  \<^verbatim>\<open>worker_state_manager\<close>), which tells whether live runs remain.
\<close>

definition has_runs :: "worker \<Rightarrow> bool" where
  "has_runs w = (runs w \<noteq> [])"

definition should_run :: "worker \<Rightarrow> bool" where
  "should_run w = (if \<not> is_exiting w then True else has_runs w)"

section \<open>The rm\_user command of the client\<close>

text \<open>
  What \<^verbatim>\<open>client.rm_user\<close> returns is \<^verbatim>\<open>None\<close> or a dictionary. Subscripting
  \<^verbatim>\<open>None\<close> raises \<^verbatim>\<open>TypeError\<close>, a missing key raises \<^verbatim>\<open>KeyError\<close>.
\<close>

type_synonym user_info = "(string \<rightharpoonup> string) option"

definition subscript :: "user_info \<Rightarrow> string \<Rightarrow> exn + string" where
  "subscript d k =
     (case d of
        None \<Rightarrow> Inl TypeError
      | Some m \<Rightarrow> (case m k of None \<Rightarrow> Inl KeyError | Some v \<Rightarrow> Inr v))"

text \<open>The tuple \<^verbatim>\<open>(user_info['name'], user_info['group_uuid'])\<close>, evaluated left to right.\<close>

definition name_and_group :: "user_info \<Rightarrow> exn + string \<times> string" where
  "name_and_group user_info =
     (case subscript user_info ''name'' of
        Inl e \<Rightarrow> Inl e
      | Inr name \<Rightarrow>
          (case subscript user_info ''group_uuid'' of
             Inl e \<Rightarrow> Inl e
           | Inr group_uuid \<Rightarrow> Inr (name, group_uuid)))"

text \<open>
  \<^verbatim>\<open>do_rm_user_command\<close> after the call of \<^verbatim>\<open>client.rm_user\<close>: the line printed, or
  the exception raised while building it.
\<close>

definition do_rm_user_command :: "user_info \<Rightarrow> exn + string" where
  "do_rm_user_command user_info =
     (if user_info = None
      then (case name_and_group user_info of
              Inl e \<Rightarrow> Inl e
            | Inr (name, group_uuid) \<Rightarrow>
                Inr (name @ '' is not a member of group '' @ group_uuid @ ''.''))
      else (case name_and_group user_info of
              Inl e \<Rightarrow> Inl e
            | Inr (name, group_uuid) \<Rightarrow>
                Inr (''Removed '' @ name @ '' from group '' @ group_uuid @ ''.'')))"

section \<open>Downloading a dependency\<close>

text \<open>
  \<^verbatim>\<open>add_dependency\<close> and \<^verbatim>\<open>_store_dependency\<close>. The stream that
  \<^verbatim>\<open>get_bundle_contents\<close> returns is the list of what its \<^verbatim>\<open>read\<close> method will do,
  call by call: return a chunk or raise. Once the list is used up, \<^verbatim>\<open>read\<close> returns the
  empty chunk (end of file). What is at the dependency path is a \<open>path_state\<close>. The calls
  made on the collaborators are recorded as \<open>dl_event\<close>s, in order.
\<close>

type_synonym bytes = "nat list"

datatype target_type = Directory | SingleFile

datatype read_result = Data bytes | ReadRaises exn

datatype path_state = Absent | FileAt bytes | DirectoryAt bytes

datatype dl_event =
    GetBundleContents
  | Read nat
  | ReadFailed exn
  | Callback nat
  | RemovePath
  | CloseStream
  | FinishDownload bool

text \<open>
  \<^verbatim>\<open>loop_callback\<close> may keep state of its own (it checks a kill flag), so what it does
  at a call depends on all the calls made so far: it is a function of the list of the
  arguments it has been given, the current one last, to the exception it raises, if any.
\<close>

type_synonym callback = "nat list \<Rightarrow> exn option"

record download =
  stream :: "read_result list"
  bytes_downloaded :: nat
  reported :: "nat list"

fun old_read_method :: "read_result list \<Rightarrow> (exn + bytes) \<times> read_result list" where
  "old_read_method [] = (Inr [], [])"
| "old_read_method (Data buf # rest) = (Inr buf, rest)"
| "old_read_method (ReadRaises e # rest) = (Inl e, rest)"

text \<open>The wrapper \<^verbatim>\<open>interruptable_read\<close> that \<^verbatim>\<open>add_dependency\<close> installs on the stream.\<close>

definition interruptable_read ::
  "callback \<Rightarrow> download \<Rightarrow> (exn + bytes) \<times> download \<times> dl_event list" where
  "interruptable_read loop_callback d =
     (case old_read_method (stream d) of
        (Inl e, rest) \<Rightarrow> (Inl e, d\<lparr>stream := rest\<rparr>, [ReadFailed e])
      | (Inr data, rest) \<Rightarrow>
          (let n = bytes_downloaded d + length data;
               d' = d\<lparr>stream := rest, bytes_downloaded := n, reported := reported d @ [n]\<rparr>
           in case loop_callback (reported d @ [n]) of
                Some e \<Rightarrow> (Inl e, d', [Read (length data), Callback n])
              | None \<Rightarrow> (Inr data, d', [Read (length data), Callback n])))"

text \<open>
  The loop of \<^verbatim>\<open>shutil.copyfileobj\<close>: read a chunk, stop at the empty chunk, write
  the chunk. \<open>write_raises written buf\<close> is the exception raised (if any) when \<open>buf\<close> is
  written after \<open>written\<close>.
\<close>

function copyfileobj ::
  "callback \<Rightarrow> (bytes \<Rightarrow> bytes \<Rightarrow> exn option) \<Rightarrow> download \<Rightarrow> bytes \<Rightarrow>
   exn option \<times> download \<times> bytes \<times> dl_event list" where
  "copyfileobj loop_callback write_raises d written =
     (case interruptable_read loop_callback d of
        (Inl e, d', evs) \<Rightarrow> (Some e, d', written, evs)
      | (Inr buf, d', evs) \<Rightarrow>
          if buf = [] then (None, d', written, evs)
          else
            (case write_raises written buf of
               Some e \<Rightarrow> (Some e, d', written, evs)
             | None \<Rightarrow>
                 (case copyfileobj loop_callback write_raises d' (written @ buf) of
                    (r, d'', written', evs') \<Rightarrow> (r, d'', written', evs @ evs'))))"
  by pat_completeness auto
termination
  apply (relation "measure (\<lambda>(loop_callback, write_raises, d, written). length (stream d))")
   apply simp
  subgoal for loop_callback write_raises d written x buf y d' evs
    by (cases "stream d" rule: old_read_method.cases)
       (auto simp: interruptable_read_def Let_def split: option.splits)
  done

declare copyfileobj.simps [simp del]

text \<open>
  Modelled from the spec: \<^verbatim>\<open>file_util.un_tar_directory\<close>, which reads the gzipped
  tarball from the stream through its \<^verbatim>\<open>read\<close> method until the end of the stream and
  unpacks it under the path; \<open>extract_raises\<close> is the exception raised (if any) when a
  chunk cannot be unpacked.
\<close>

definition un_tar_directory ::
  "callback \<Rightarrow> (bytes \<Rightarrow> bytes \<Rightarrow> exn option) \<Rightarrow> download \<Rightarrow>
   exn option \<times> path_state \<times> dl_event list" where
  "un_tar_directory loop_callback extract_raises d =
     (case copyfileobj loop_callback extract_raises d [] of
        (r, d', unpacked, evs) \<Rightarrow> (r, DirectoryAt unpacked, evs))"

text \<open>
  What the worker is given from outside during one \<^verbatim>\<open>add_dependency\<close>: the answer of
  the dependency manager, the outcome of \<^verbatim>\<open>get_bundle_contents\<close>, the callback, and the
  failures of the file system.
\<close>

record download_env =
  shared_file_system :: bool
  should_download :: bool
  dependency_path :: string
  bundle_contents :: "exn + read_result list \<times> target_type"
  loop_callback :: callback
  open_raises :: "exn option"
  write_raises :: "bytes \<Rightarrow> bytes \<Rightarrow> exn option"
  extract_raises :: "bytes \<Rightarrow> bytes \<Rightarrow> exn option"

text \<open>The body of the \<^verbatim>\<open>try\<close> in \<^verbatim>\<open>_store_dependency\<close>.\<close>

definition store_body ::
  "download_env \<Rightarrow> target_type \<Rightarrow> download \<Rightarrow> path_state \<Rightarrow>
   exn option \<times> path_state \<times> dl_event list" where
  "store_body env target d fs =
     (if target = Directory
      then un_tar_directory (loop_callback env) (extract_raises env) d
      else
        (case open_raises env of
           Some e \<Rightarrow> (Some e, fs, [])
         | None \<Rightarrow>
             (case copyfileobj (loop_callback env) (write_raises env) d [] of
                (r, d', written, evs) \<Rightarrow> (r, FileAt written, evs))))"

text \<open>
  \<^verbatim>\<open>_store_dependency\<close>: on any exception the path is removed (\<^verbatim>\<open>remove_path\<close> leaves
  nothing at the path) and the exception is raised again.
\<close>

definition store_dependency ::
  "download_env \<Rightarrow> target_type \<Rightarrow> download \<Rightarrow> path_state \<Rightarrow>
   exn option \<times> path_state \<times> dl_event list" where
  "store_dependency env target d fs =
     (case store_body env target d fs of
        (None, fs', evs) \<Rightarrow> (None, fs', evs)
      | (Some e, fs', evs) \<Rightarrow> (Some e, Absent, evs @ [RemovePath]))"

definition new_download :: "read_result list \<Rightarrow> download" where
  "new_download fileobj = \<lparr>stream = fileobj, bytes_downloaded = 0, reported = []\<rparr>"

text \<open>
  \<^verbatim>\<open>add_dependency\<close>: the path returned or the exception raised, what is at the
  dependency path afterwards, and the calls made. The \<^verbatim>\<open>finally\<close> clause calls
  \<^verbatim>\<open>finish_download\<close> on every way out of the \<^verbatim>\<open>try\<close>; \<^verbatim>\<open>closing\<close> closes the stream
  before that.
\<close>

definition add_dependency ::
  "download_env \<Rightarrow> path_state \<Rightarrow> (exn + string) \<times> path_state \<times> dl_event list" where
  "add_dependency env fs =
     (if shared_file_system env then (Inl AssertionError, fs, [])
      else if should_download env then
        (case bundle_contents env of
           Inl e \<Rightarrow> (Inl e, fs, [GetBundleContents, FinishDownload False])
         | Inr (fileobj, target) \<Rightarrow>
             (case store_dependency env target (new_download fileobj) fs of
                (Some e, fs', evs) \<Rightarrow>
                  (Inl e, fs', GetBundleContents # evs @ [CloseStream, FinishDownload False])
              | (None, fs', evs) \<Rightarrow>
                  (Inr (dependency_path env), fs',
                   GetBundleContents # evs @ [CloseStream, FinishDownload True])))
      else (Inr (dependency_path env), fs, []))"

subsection \<open>Reading the record of calls\<close>

fun is_finish_download :: "dl_event \<Rightarrow> bool" where
  "is_finish_download (FinishDownload b) = True"
| "is_finish_download ev = False"

fun is_read :: "dl_event \<Rightarrow> bool" where
  "is_read (Read k) = True"
| "is_read ev = False"

fun is_callback :: "dl_event \<Rightarrow> bool" where
  "is_callback (Callback n) = True"
| "is_callback ev = False"

text \<open>
  \<open>well_reported n evs\<close>: with \<open>n\<close> bytes downloaded before, every chunk read in \<open>evs\<close> is
  followed at once by a call of the callback with the number of bytes downloaded up to
  and with that chunk, and the callback is called at no other moment.
\<close>

fun well_reported :: "nat \<Rightarrow> dl_event list \<Rightarrow> bool" where
  "well_reported n [] = True"
| "well_reported n (Read k # Callback m # evs) = (m = n + k \<and> well_reported m evs)"
| "well_reported n (Read k # evs) = False"
| "well_reported n (Callback m # evs) = False"
| "well_reported n (ev # evs) = well_reported n evs"

text \<open>
  \<open>first_raise cb seen evs\<close>: the first call of the callback in \<open>evs\<close> at which it raises
  (\<open>seen\<close> are the arguments of its earlier calls), with the exception raised and the
  calls recorded after it.
\<close>

fun first_raise :: "callback \<Rightarrow> nat list \<Rightarrow> dl_event list \<Rightarrow> (exn \<times> dl_event list) option" where
  "first_raise cb seen [] = None"
| "first_raise cb seen (Callback n # evs) =
     (case cb (seen @ [n]) of
        Some e \<Rightarrow> Some (e, evs)
      | None \<Rightarrow> first_raise cb (seen @ [n]) evs)"
| "first_raise cb seen (ev # evs) = first_raise cb seen evs"

subsection \<open>The chunks of a stream\<close>

text \<open>
  \<open>chunk_sizes s\<close>: the sizes of the chunks that the \<^verbatim>\<open>read\<close> method of the stream \<open>s\<close>
  hands out, one for each call, up to and with the first empty chunk (the end of the
  stream), or up to the call that raises. \<open>running_totals n ks\<close>: the number of bytes
  downloaded after each of the chunks of sizes \<open>ks\<close>, with \<open>n\<close> bytes downloaded before.
\<close>

fun chunk_sizes :: "read_result list \<Rightarrow> nat list" where
  "chunk_sizes [] = [0]"
| "chunk_sizes (Data buf # rest) = (if buf = [] then [0] else length buf # chunk_sizes rest)"
| "chunk_sizes (ReadRaises e # rest) = []"

fun running_totals :: "nat \<Rightarrow> nat list \<Rightarrow> nat list" where
  "running_totals n [] = []"
| "running_totals n (k # ks) = (n + k) # running_totals (n + k) ks"

text \<open>
  \<open>reported_reads n ks\<close>: the record of reading chunks of sizes \<open>ks\<close> with the callback
  called after each of them with the bytes downloaded so far.
\<close>

fun reported_reads :: "nat \<Rightarrow> nat list \<Rightarrow> dl_event list" where
  "reported_reads n [] = []"
| "reported_reads n (k # ks) = Read k # Callback (n + k) # reported_reads (n + k) ks"

fun read_sizes :: "dl_event list \<Rightarrow> nat list" where
  "read_sizes [] = []"
| "read_sizes (Read k # evs) = k # read_sizes evs"
| "read_sizes (ev # evs) = read_sizes evs"

fun callback_args :: "dl_event list \<Rightarrow> nat list" where
  "callback_args [] = []"
| "callback_args (Callback n # evs) = n # callback_args evs"
| "callback_args (ev # evs) = callback_args evs"

text \<open>The file system never fails while the download is stored.\<close>

definition sink_never_fails :: "download_env \<Rightarrow> target_type \<Rightarrow> bool" where
  "sink_never_fails env target =
     (if target = Directory
      then (\<forall>unpacked buf. extract_raises env unpacked buf = None)
      else open_raises env = None \<and> (\<forall>written buf. write_raises env written buf = None))"

section \<open>The main loop\<close>

text \<open>
  What the worker is given from outside during one pass of the loop in \<^verbatim>\<open>Worker.run\<close>:
  the outcome of \<^verbatim>\<open>self._bundle_service.checkin\<close> (an exception, no message or a
  message), what \<^verbatim>\<open>set.pop()\<close> yields and whether the run starts if the message is a
  \<^verbatim>\<open>run\<close>, the exception raised (if any) by the handler of a read, netcat, write or
  kill message, and the behaviour of the state manager: whether its
  \<^verbatim>\<open>resume_previous_runs\<close> raises, the runs it reconstructs, and whether each of the
  two \<^verbatim>\<open>save_state\<close> calls raises. Python visits the members of a set in an order
  that the language does not fix: \<open>iter_order\<close> is the order in which a \<^verbatim>\<open>for\<close> loop
  over a set visits it. The other threads act while the pass runs: \<open>finishing\<close> are
  the runs that reach their end during the pass, and \<open>signal_received\<close> tells whether
  the process is signalled to exit, which calls \<^verbatim>\<open>Worker.signal\<close>.
\<close>

record checkin_env =
  response :: "exn + message option"
  choose_cpu :: chooser
  choose_gpu :: chooser
  run_started :: bool
  handler_raises :: "exn option"
  resume_raises :: "exn option"
  previous_runs :: "(uuid \<times> int set \<times> int set) list"
  resume_save_raises :: "exn option"
  save_state_raises :: "exn option"
  iter_order :: "int set \<Rightarrow> int list"
  finishing :: "uuid list"
  signal_received :: bool

text \<open>
  \<^verbatim>\<open>_checkin\<close>: the call of the bundle service and the dispatch on the message type.
  The handlers of read, netcat, write and kill messages act on the run they name and
  leave the fields of the worker as they are; a message of any other type is ignored.
\<close>

definition checkin :: "worker \<Rightarrow> checkin_env \<Rightarrow> exn option \<times> worker \<times> event list" where
  "checkin w env =
     (case response env of
        Inl e \<Rightarrow> (Some e, w, [CheckinCall])
      | Inr None \<Rightarrow> (None, w, [CheckinCall])
      | Inr (Some (RunMessage bundle_uuid request_cpus request_gpus)) \<Rightarrow>
          (case handle_run (choose_cpu env) (choose_gpu env) (run_started env) w
                  bundle_uuid request_cpus request_gpus of
             (r, w', evs) \<Rightarrow> (r, w', CheckinCall # evs))
      | Inr (Some UpgradeMessage) \<Rightarrow>
          (None, w\<lparr>exiting := True, should_upgrade := True\<rparr>, [CheckinCall])
      | Inr (Some OtherMessage) \<Rightarrow> (None, w, [CheckinCall])
      | Inr (Some m) \<Rightarrow> (handler_raises env, w, [CheckinCall, Dispatched m]))"

text \<open>
  The two inner loops of \<^verbatim>\<open>resume_previous_runs\<close>: every member of a resumed run's set
  that is in the configured set is removed from the free set (\<^verbatim>\<open>set.remove\<close> raises
  \<^verbatim>\<open>KeyError\<close> when it is not there); a member outside the configured set is only
  logged. \<open>remove_keys\<close> is given the members of the run's set in the order in which
  the loop visits them.
\<close>

fun remove_keys :: "int set \<Rightarrow> int list \<Rightarrow> int set \<Rightarrow> exn option \<times> int set" where
  "remove_keys configured [] free = (None, free)"
| "remove_keys configured (k # ks) free =
     (if k \<in> configured
      then (if k \<in> free then remove_keys configured ks (free - {k}) else (Some KeyError, free))
      else remove_keys configured ks free)"

fun subtract_run_sets ::
  "(int set \<Rightarrow> int list) \<Rightarrow> worker \<Rightarrow> (int set \<times> int set) list \<Rightarrow> exn option \<times> worker" where
  "subtract_run_sets order w [] = (None, w)"
| "subtract_run_sets order w ((cs, gs) # rest) =
     (case remove_keys (cpuset w) (order cs) (cpuset_free w) of
        (Some e, fc) \<Rightarrow> (Some e, w\<lparr>cpuset_free := fc\<rparr>)
      | (None, fc) \<Rightarrow>
          (case remove_keys (gpuset w) (order gs) (gpuset_free w) of
             (Some e, fg) \<Rightarrow> (Some e, w\<lparr>cpuset_free := fc, gpuset_free := fg\<rparr>)
           | (None, fg) \<Rightarrow>
               subtract_run_sets order (w\<lparr>cpuset_free := fc, gpuset_free := fg\<rparr>) rest))"

text \<open>
  The local function \<^verbatim>\<open>resume_previous_runs\<close> of \<^verbatim>\<open>Worker.run\<close>. Modelled from the
  spec: \<^verbatim>\<open>WorkerStateManager.resume_previous_runs\<close> reconstructs each previous run, which
  is then among the live runs, and \<^verbatim>\<open>map_runs\<close> maps over the live runs.
\<close>

definition resume_previous_runs :: "worker \<Rightarrow> checkin_env \<Rightarrow> exn option \<times> worker \<times> event list" where
  "resume_previous_runs w env =
     (case resume_raises env of
        Some e \<Rightarrow> (Some e, w, [])
      | None \<Rightarrow>
          (case subtract_run_sets (iter_order env) (w\<lparr>runs := runs w @ previous_runs env\<rparr>)
                  (map snd (runs w @ previous_runs env)) of
             (Some e, w') \<Rightarrow> (Some e, w', [])
           | (None, w') \<Rightarrow>
               (case resume_save_raises env of
                  Some e \<Rightarrow> (Some e, w', [])
                | None \<Rightarrow> (None, w', [SaveState]))))"

text \<open>
  The body of the \<^verbatim>\<open>try\<close> in the loop. \<open>resumed\<close> is the local variable
  \<^verbatim>\<open>resumed_prev_runs\<close>. The result is the exception raised (if any), the worker, the
  variable and the events.
\<close>

definition try_block ::
  "worker \<Rightarrow> bool \<Rightarrow> checkin_env \<Rightarrow> exn option \<times> worker \<times> bool \<times> event list" where
  "try_block w resumed env =
     (case checkin w env of
        (Some e, w1, evs1) \<Rightarrow> (Some e, w1, resumed, evs1)
      | (None, w1, evs1) \<Rightarrow>
          (case (if \<not> resumed then resume_previous_runs w1 env else (None, w1, [])) of
             (Some e, w2, evs2) \<Rightarrow> (Some e, w2, resumed, evs1 @ evs2)
           | (None, w2, evs2) \<Rightarrow>
               (case save_state_raises env of
                  Some e \<Rightarrow> (Some e, w2, True, evs1 @ evs2)
                | None \<Rightarrow>
                    (None, w2\<lparr>last_checkin_successful := True\<rparr>, True,
                     evs1 @ evs2 @ [SaveState] @
                     (if \<not> last_checkin_successful w2 then [LogConnected] else [])))))"

text \<open>\<^verbatim>\<open>Worker.signal\<close>, called when the process is signalled to exit.\<close>

definition signal :: "worker \<Rightarrow> worker" where
  "signal w = w\<lparr>exiting := True\<rparr>"

text \<open>
  \<^verbatim>\<open>Worker.finish_run\<close>. Modelled from the spec: \<^verbatim>\<open>WorkerStateManager.finish_run\<close>,
  which removes the record of the run from the live runs.
\<close>

definition finish_run :: "worker \<Rightarrow> uuid \<Rightarrow> worker" where
  "finish_run w u = w\<lparr>runs := filter (\<lambda>r. fst r \<noteq> u) (runs w)\<rparr>"

text \<open>
  Modelled from the spec: the end of a \<^verbatim>\<open>Run\<close> (module \<^verbatim>\<open>run\<close>), which in its terminal
  state releases its cpu and gpu sets to the pool and notifies the worker to remove its
  record.
\<close>

fun release_sets_of :: "uuid \<Rightarrow> (uuid \<times> int set \<times> int set) list \<Rightarrow> worker \<Rightarrow> worker" where
  "release_sets_of u [] w = w"
| "release_sets_of u ((u', cs, gs) # rs) w =
     release_sets_of u rs (if u' = u then deallocate_cpu_and_sets w cs gs else w)"

definition run_terminates :: "worker \<Rightarrow> uuid \<Rightarrow> worker" where
  "run_terminates w u = finish_run (release_sets_of u (runs w) w) u"

fun runs_terminate :: "worker \<Rightarrow> uuid list \<Rightarrow> worker" where
  "runs_terminate w [] = w"
| "runs_terminate w (u # us) = runs_terminate (run_terminates w u) us"

text \<open>
  What the other threads have done to the worker by the end of a pass, when the guard of
  the loop is evaluated again.
\<close>

definition other_threads :: "checkin_env \<Rightarrow> worker \<Rightarrow> worker" where
  "other_threads env w =
     (if signal_received env
      then signal (runs_terminate w (finishing env))
      else runs_terminate w (finishing env))"

text \<open>One pass of the loop: the \<^verbatim>\<open>try\<close> and its \<^verbatim>\<open>except Exception\<close> clause.\<close>

definition iteration :: "worker \<Rightarrow> bool \<Rightarrow> checkin_env \<Rightarrow> worker \<times> bool \<times> event list" where
  "iteration w resumed env =
     (case try_block w resumed env of
        (None, w', resumed', evs) \<Rightarrow> (other_threads env w', resumed', evs)
      | (Some e, w', resumed', evs) \<Rightarrow>
          (other_threads env (w'\<lparr>last_checkin_successful := False\<rparr>), resumed',
           evs @ [PrintExc e, Sleep 1]))"

text \<open>
  \<^verbatim>\<open>while self._should_run()\<close>, run against the list of what the outside does pass by
  pass. The first component tells whether the loop has ended; it is \<open>False\<close> when the
  list is used up while the guard still holds, that is, when the loop is still running.
\<close>

fun main_loop :: "worker \<Rightarrow> bool \<Rightarrow> checkin_env list \<Rightarrow> bool \<times> worker \<times> bool \<times> event list" where
  "main_loop w resumed [] = (\<not> should_run w, w, resumed, [])"
| "main_loop w resumed (env # envs) =
     (if should_run w
      then (case iteration w resumed env of
              (w', resumed', evs) \<Rightarrow>
                (case main_loop w' resumed' envs of
                   (ended, w'', resumed'', evs') \<Rightarrow> (ended, w'', resumed'', evs @ evs')))
      else (True, w, resumed, []))"

text \<open>
  For each pass that the loop makes, whether its \<^verbatim>\<open>try\<close> ran to the end; and, for such
  a list and the value of \<^verbatim>\<open>_last_checkin_successful\<close> before it, the number of passes
  that ran to the end when the flag was false: the number of times that connectivity was
  restored.
\<close>

fun pass_results :: "worker \<Rightarrow> bool \<Rightarrow> checkin_env list \<Rightarrow> bool list" where
  "pass_results w resumed [] = []"
| "pass_results w resumed (env # envs) =
     (if should_run w
      then (fst (try_block w resumed env) = None) #
           (case iteration w resumed env of
              (w', resumed', evs) \<Rightarrow> pass_results w' resumed' envs)
      else [])"

fun restorations :: "bool \<Rightarrow> bool list \<Rightarrow> nat" where
  "restorations flag [] = 0"
| "restorations flag (ok # oks) = (if ok \<and> \<not> flag then 1 else 0) + restorations ok oks"

section \<open>After the loop: check-out and upgrade\<close>









fun count_event :: "event \<Rightarrow> event list \<Rightarrow> nat" where
  "count_event ev [] = 0"
| "count_event ev (x # xs) = (if x = ev then Suc (count_event ev xs) else count_event ev xs)"

section \<open>Properties of the resource pool\<close>

lemma valid_choice_Max: "valid_choice Max"
  by (simp add: valid_choice_def)

lemma valid_choice_Min: "valid_choice Min"
  by (simp add: valid_choice_def)

lemma pop_into_enough:
  "valid_choice ch \<Longrightarrow> k \<le> card free \<Longrightarrow>
   \<exists>X. X \<subseteq> free \<and> finite X \<and> card X = k \<and> pop_into ch k acc free = (None, acc \<union> X, free - X)"
proof (induction k arbitrary: acc free)
  case 0
  have "{} \<subseteq> free \<and> finite ({}::int set) \<and> card ({}::int set) = 0 \<and>
        pop_into ch 0 acc free = (None, acc \<union> {}, free - {})" by simp
  then show ?case by blast
next
  case (Suc k)
  from Suc.prems have fin: "finite free" and ne: "free \<noteq> {}"
    by (auto intro: card_ge_0_finite)
  with Suc.prems have mem: "ch free \<in> free" by (simp add: valid_choice_def)
  let ?x = "ch free"
  have "k \<le> card (free - {?x})" using Suc.prems fin mem by simp
  from Suc.IH [OF Suc.prems(1) this, of "insert ?x acc"]
  obtain X where X: "X \<subseteq> free - {?x}" "finite X" "card X = k"
    "pop_into ch k (insert ?x acc) (free - {?x}) = (None, insert ?x acc \<union> X, free - {?x} - X)"
    by blast
  have "insert ?x X \<subseteq> free" using X(1) mem by blast
  moreover have "finite (insert ?x X)" using X(2) by simp
  moreover have "card (insert ?x X) = Suc k"
  proof -
    have "?x \<notin> X" using X(1) by blast
    then show ?thesis using X(2,3) by simp
  qed
  moreover have "pop_into ch (Suc k) acc free = (None, acc \<union> insert ?x X, free - insert ?x X)"
  proof -
    have "free - {?x} - X = free - insert ?x X" by blast
    then show ?thesis using ne X(4) by (simp add: set_pop_def)
  qed
  ultimately show ?case by blast
qed

lemma allocate_insufficient:
  "int (card (cpuset_free w)) < n_cpus \<or> int (card (gpuset_free w)) < n_gpus \<Longrightarrow>
   allocate_cpu_and_gpu_sets chc chg w n_cpus n_gpus = (Inr ({}, {}), w)"
  by (simp add: allocate_cpu_and_gpu_sets_def)

lemma allocate_sufficient:
  assumes "valid_choice chc" "valid_choice chg"
    and "n_cpus \<le> int (card (cpuset_free w))" "n_gpus \<le> int (card (gpuset_free w))"
  shows "\<exists>cs gs. cs \<subseteq> cpuset_free w \<and> gs \<subseteq> gpuset_free w \<and> finite cs \<and> finite gs \<and>
           card cs = nat n_cpus \<and> card gs = nat n_gpus \<and>
           allocate_cpu_and_gpu_sets chc chg w n_cpus n_gpus =
             (Inr (cs, gs), w\<lparr>cpuset_free := cpuset_free w - cs, gpuset_free := gpuset_free w - gs\<rparr>)"
proof -
  have "nat n_cpus \<le> card (cpuset_free w)" using assms(3) by simp
  from pop_into_enough [OF assms(1) this, of "{}"]
  obtain cs where cs: "cs \<subseteq> cpuset_free w" "finite cs" "card cs = nat n_cpus"
    "pop_into chc (nat n_cpus) {} (cpuset_free w) = (None, cs, cpuset_free w - cs)" by auto
  have "nat n_gpus \<le> card (gpuset_free w)" using assms(4) by simp
  from pop_into_enough [OF assms(2) this, of "{}"]
  obtain gs where gs: "gs \<subseteq> gpuset_free w" "finite gs" "card gs = nat n_gpus"
    "pop_into chg (nat n_gpus) {} (gpuset_free w) = (None, gs, gpuset_free w - gs)" by auto
  have "allocate_cpu_and_gpu_sets chc chg w n_cpus n_gpus =
      (Inr (cs, gs), w\<lparr>cpuset_free := cpuset_free w - cs, gpuset_free := gpuset_free w - gs\<rparr>)"
    using assms(3,4) cs(4) gs(4) by (simp add: allocate_cpu_and_gpu_sets_def)
  with cs gs show ?thesis by blast
qed

lemma disjoint_family_append:
  "disjoint_family (xs @ ys) =
     (disjoint_family xs \<and> disjoint_family ys \<and> (\<forall>a \<in> set xs. \<forall>b \<in> set ys. a \<inter> b = {}))"
  by (induction xs) auto

lemma conserved_allocate:
  assumes "conserved t free held" "X \<subseteq> free"
  shows "conserved t (free - X) (held @ [X])"
proof -
  from assms(1) have u: "free \<union> \<Union> (set held) = t" and d: "\<forall>h \<in> set held. free \<inter> h = {}"
    and dh: "disjoint_family held"
    by (simp_all add: conserved_def)
  have "(free - X) \<union> \<Union> (set (held @ [X])) = t" using u assms(2) by auto
  moreover have "\<forall>h \<in> set (held @ [X]). (free - X) \<inter> h = {}" using d by auto
  moreover have "disjoint_family (held @ [X])"
    using dh d assms(2) by (auto simp: disjoint_family_append)
  ultimately show ?thesis by (simp add: conserved_def)
qed

lemma conserved_release:
  assumes "conserved t free held" "k < length held"
  shows "conserved t (free \<union> held ! k) (take k held @ drop (Suc k) held)"
proof -
  let ?a = "take k held" and ?b = "drop (Suc k) held" and ?x = "held ! k"
  have split: "held = ?a @ ?x # ?b" using assms(2) by (rule id_take_nth_drop)
  from assms(1) have u: "free \<union> \<Union> (set held) = t" and d: "\<forall>h \<in> set held. free \<inter> h = {}"
    and dh: "disjoint_family held"
    by (simp_all add: conserved_def)
  from dh have dh': "disjoint_family (?a @ ?x # ?b)" using split by simp
  have sets: "set held = set ?a \<union> {?x} \<union> set ?b"
  proof -
    have "set held = set (?a @ ?x # ?b)" using split by simp
    then show ?thesis by simp
  qed
  have "(free \<union> ?x) \<union> \<Union> (set (?a @ ?b)) = t" using u sets by auto
  moreover have "\<forall>h \<in> set (?a @ ?b). (free \<union> ?x) \<inter> h = {}"
    using d dh' sets by (auto simp: disjoint_family_append)
  moreover have "disjoint_family (?a @ ?b)" using dh' by (auto simp: disjoint_family_append)
  ultimately show ?thesis by (simp add: conserved_def)
qed

lemma pool_step_inv:
  assumes "pool_inv s" "valid_call c"
  shows "pool_inv (pool_step s c)"
proof (cases s)
  case (Pair w live)
  show ?thesis
  proof (cases c)
    case (Allocate chc chg n_cpus n_gpus)
    show ?thesis
    proof (cases "int (card (cpuset_free w)) < n_cpus \<or> int (card (gpuset_free w)) < n_gpus")
      case True
      have "conserved (cpuset w) (cpuset_free w - {}) (map fst live @ [{}])"
        using assms(1) Pair by (intro conserved_allocate) (simp_all add: pool_inv_def)
      moreover have "conserved (gpuset w) (gpuset_free w - {}) (map snd live @ [{}])"
        using assms(1) Pair by (intro conserved_allocate) (simp_all add: pool_inv_def)
      ultimately show ?thesis
        using Pair Allocate allocate_insufficient [OF True, of chc chg]
        by (simp add: pool_inv_def)
    next
      case False
      then have le: "n_cpus \<le> int (card (cpuset_free w))" "n_gpus \<le> int (card (gpuset_free w))"
        by simp_all
      from assms(2) Allocate have v: "valid_choice chc" "valid_choice chg" by simp_all
      from allocate_sufficient [OF v le]
      obtain cs gs where a: "cs \<subseteq> cpuset_free w" "gs \<subseteq> gpuset_free w"
        "allocate_cpu_and_gpu_sets chc chg w n_cpus n_gpus =
          (Inr (cs, gs), w\<lparr>cpuset_free := cpuset_free w - cs, gpuset_free := gpuset_free w - gs\<rparr>)"
        by blast
      have "conserved (cpuset w) (cpuset_free w - cs) (map fst live @ [cs])"
        using assms(1) Pair a(1) by (intro conserved_allocate) (simp_all add: pool_inv_def)
      moreover have "conserved (gpuset w) (gpuset_free w - gs) (map snd live @ [gs])"
        using assms(1) Pair a(2) by (intro conserved_allocate) (simp_all add: pool_inv_def)
      ultimately show ?thesis using Pair Allocate a(3) by (simp add: pool_inv_def)
    qed
  next
    case (Release k)
    show ?thesis
    proof (cases "k < length live")
      case True
      have "conserved (cpuset w) (cpuset_free w \<union> map fst live ! k)
              (take k (map fst live) @ drop (Suc k) (map fst live))"
        using assms(1) Pair True by (intro conserved_release) (simp_all add: pool_inv_def)
      moreover have "conserved (gpuset w) (gpuset_free w \<union> map snd live ! k)
              (take k (map snd live) @ drop (Suc k) (map snd live))"
        using assms(1) Pair True by (intro conserved_release) (simp_all add: pool_inv_def)
      ultimately show ?thesis
        using Pair Release True
        by (simp add: pool_inv_def deallocate_cpu_and_sets_def take_map drop_map)
    next
      case False
      then show ?thesis using assms(1) Pair Release by simp
    qed
  qed
qed

lemma pool_run_inv:
  "pool_inv s \<Longrightarrow> \<forall>c \<in> set calls. valid_call c \<Longrightarrow> pool_inv (pool_run s calls)"
  by (induction calls arbitrary: s) (simp_all add: pool_step_inv)

lemma pool_inv_init: "pool_inv (Worker_init cs gs, [])"
  by (simp add: pool_inv_def conserved_def Worker_init_def)

lemma pool_step_config:
  "cpuset (fst (pool_step s c)) = cpuset (fst s) \<and> gpuset (fst (pool_step s c)) = gpuset (fst s)"
proof (cases s)
  case (Pair w live)
  show ?thesis
  proof (cases c)
    case (Allocate chc chg n_cpus n_gpus)
    then show ?thesis using Pair
      by (auto simp: allocate_cpu_and_gpu_sets_def split: prod.splits option.splits sum.splits)
  next
    case (Release k)
    then show ?thesis using Pair by (simp add: deallocate_cpu_and_sets_def)
  qed
qed

lemma pool_run_config:
  "cpuset (fst (pool_run s calls)) = cpuset (fst s) \<and> gpuset (fst (pool_run s calls)) = gpuset (fst s)"
  by (induction calls arbitrary: s) (simp_all add: pool_step_config)

section \<open>Claims about the resource pool\<close>

text \<open>
  C1. Resource conservation: after every sequence of allocation and release calls that
  starts from the initial pool, the free cpu set together with the cpu sets held by the
  live runs is the configured cpu set, and the free set and the live sets are pairwise
  disjoint; the same for the gpus. The members that \<^verbatim>\<open>set.pop()\<close> yields may be any
  members of the set it is called on.
\<close>

theorem resource_conservation:
  assumes "\<forall>c \<in> set calls. valid_call c"
    and "pool_run (Worker_init cs gs, []) calls = (w, live)"
  shows "cpuset w = cs \<and> gpuset w = gs \<and>
         cpuset_free w \<union> \<Union> (set (map fst live)) = cs \<and>
         disjoint_family (cpuset_free w # map fst live) \<and>
         gpuset_free w \<union> \<Union> (set (map snd live)) = gs \<and>
         disjoint_family (gpuset_free w # map snd live)"
proof -
  have "pool_inv (pool_run (Worker_init cs gs, []) calls)"
    using pool_inv_init assms(1) by (rule pool_run_inv)
  then have inv: "pool_inv (w, live)" using assms(2) by simp
  have "cpuset w = cs \<and> gpuset w = gs"
    using pool_run_config [of "(Worker_init cs gs, [])" calls] assms(2)
    by (simp add: Worker_init_def)
  with inv show ?thesis by (simp add: pool_inv_def conserved_def)
qed

text \<open>
  Four calls on a pool of four cpus and two gpus: two allocations that succeed, one that
  asks for more cpus than are free, and the release of the first.
\<close>

theorem resource_conservation_witness:
  "pool_run (Worker_init {0, 1, 2, 3} {0, 1}, [])
     [Allocate Max Min 2 1, Allocate Min Min 1 0, Allocate Min Min 5 0, Release 0] =
     (\<lparr>cpuset = {0, 1, 2, 3}, gpuset = {0, 1}, cpuset_free = {1, 2, 3}, gpuset_free = {0, 1},
       runs = [], exiting = False, should_upgrade = False, last_checkin_successful = False\<rparr>,
      [({0}, {}), ({}, {})]) \<and>
   {1, 2, 3} \<union> \<Union> (set (map fst [({0}, {}), ({}, {}::int set)])) = {0, 1, 2, 3::int} \<and>
   disjoint_family ({1, 2, 3} # map fst [({0}, {}), ({}, {}::int set)])"
proof -
  let ?calls = "[Allocate Max Min 2 1, Allocate Min Min 1 0, Allocate Min Min 5 0, Release 0]"
  have v: "\<forall>c \<in> set ?calls. valid_call c"
    by (simp add: valid_choice_Max valid_choice_Min)
  have r: "pool_run (Worker_init {0, 1, 2, 3} {0, 1}, []) ?calls =
     (\<lparr>cpuset = {0, 1, 2, 3}, gpuset = {0, 1}, cpuset_free = {1, 2, 3}, gpuset_free = {0, 1},
       runs = [], exiting = False, should_upgrade = False, last_checkin_successful = False\<rparr>,
      [({0}, {}), ({}, {})])"
    by code_simp
  from resource_conservation [OF v r] r show ?thesis by simp
qed

text \<open>
  C7. When fewer cpus or fewer gpus are free than requested, the allocation returns the
  pair of empty sets and the worker, with both free sets, is left as it was.
\<close>

theorem allocation_failure_frame:
  assumes "int (card (cpuset_free w)) < n_cpus \<or> int (card (gpuset_free w)) < n_gpus"
  shows "allocate_cpu_and_gpu_sets chc chg w n_cpus n_gpus = (Inr ({}, {}), w) \<and>
         cpuset_free (snd (allocate_cpu_and_gpu_sets chc chg w n_cpus n_gpus)) = cpuset_free w \<and>
         gpuset_free (snd (allocate_cpu_and_gpu_sets chc chg w n_cpus n_gpus)) = gpuset_free w"
  using allocate_insufficient [OF assms] by simp

theorem allocation_failure_frame_witness:
  "(int (card (cpuset_free (Worker_init {0, 1} {0}))) < 1 \<or>
    int (card (gpuset_free (Worker_init {0, 1} {0}))) < 2) \<and>
   allocate_cpu_and_gpu_sets Min Min (Worker_init {0, 1} {0}) 1 2 =
     (Inr ({}, {}), Worker_init {0, 1} {0})"
proof -
  have h: "int (card (cpuset_free (Worker_init {0, 1} {0}))) < 1 \<or>
    int (card (gpuset_free (Worker_init {0, 1} {0}))) < 2"
    by (simp add: Worker_init_def)
  from allocation_failure_frame [OF h, of Min Min] h show ?thesis by simp
qed

text \<open>
  C2, as the code has it. For requested counts \<open>n_cpus\<close> and \<open>n_gpus\<close> (not negative) the
  allocation returns a cpu set of \<open>n_cpus\<close> members and a gpu set of \<open>n_gpus\<close> members of
  the free sets if and only if at least that many are free of each; it then takes exactly
  those members out of the free sets. Which members they are is what \<^verbatim>\<open>set.pop()\<close>
  yields: any members of the free sets, not the lowest ones.
\<close>

theorem allocate_iff_sufficient:
  assumes "valid_choice chc" "valid_choice chg"
    and "0 \<le> n_cpus" "0 \<le> n_gpus"
  shows "\<exists>cs gs w'.
     allocate_cpu_and_gpu_sets chc chg w n_cpus n_gpus = (Inr (cs, gs), w') \<and>
     ((int (card cs) = n_cpus \<and> int (card gs) = n_gpus \<and>
       cs \<subseteq> cpuset_free w \<and> gs \<subseteq> gpuset_free w) =
      (n_cpus \<le> int (card (cpuset_free w)) \<and> n_gpus \<le> int (card (gpuset_free w)))) \<and>
     (n_cpus \<le> int (card (cpuset_free w)) \<and> n_gpus \<le> int (card (gpuset_free w)) \<longrightarrow>
        w' = w\<lparr>cpuset_free := cpuset_free w - cs, gpuset_free := gpuset_free w - gs\<rparr>)"
proof (cases "n_cpus \<le> int (card (cpuset_free w)) \<and> n_gpus \<le> int (card (gpuset_free w))")
  case True
  then have le: "n_cpus \<le> int (card (cpuset_free w))" "n_gpus \<le> int (card (gpuset_free w))"
    by simp_all
  from allocate_sufficient [OF assms(1,2) le]
  obtain cs gs where a: "cs \<subseteq> cpuset_free w" "gs \<subseteq> gpuset_free w"
    "card cs = nat n_cpus" "card gs = nat n_gpus"
    "allocate_cpu_and_gpu_sets chc chg w n_cpus n_gpus =
       (Inr (cs, gs), w\<lparr>cpuset_free := cpuset_free w - cs, gpuset_free := gpuset_free w - gs\<rparr>)"
    by blast
  have "int (card cs) = n_cpus" "int (card gs) = n_gpus" using a(3,4) assms(3,4) by simp_all
  with a True show ?thesis by simp
next
  case False
  then have lt: "int (card (cpuset_free w)) < n_cpus \<or> int (card (gpuset_free w)) < n_gpus"
    by auto
  have neg: "\<not> (int (card ({}::int set)) = n_cpus \<and> int (card ({}::int set)) = n_gpus \<and>
       {} \<subseteq> cpuset_free w \<and> {} \<subseteq> gpuset_free w)"
    using lt assms(3,4) by auto
  have "allocate_cpu_and_gpu_sets chc chg w n_cpus n_gpus = (Inr ({}, {}), w) \<and>
     ((int (card ({}::int set)) = n_cpus \<and> int (card ({}::int set)) = n_gpus \<and>
       {} \<subseteq> cpuset_free w \<and> {} \<subseteq> gpuset_free w) =
      (n_cpus \<le> int (card (cpuset_free w)) \<and> n_gpus \<le> int (card (gpuset_free w)))) \<and>
     (n_cpus \<le> int (card (cpuset_free w)) \<and> n_gpus \<le> int (card (gpuset_free w)) \<longrightarrow>
        w = w\<lparr>cpuset_free := cpuset_free w - {}, gpuset_free := gpuset_free w - {}\<rparr>)"
    using allocate_insufficient [OF lt, of chc chg] False neg by blast
  then show ?thesis by blast
qed

theorem allocate_iff_sufficient_witness:
  "allocate_cpu_and_gpu_sets Max Max (Worker_init {1, 8} {0}) 1 1 =
     (Inr ({8}, {0}), (Worker_init {1, 8} {0})\<lparr>cpuset_free := {1}, gpuset_free := {}\<rparr>) \<and>
   allocate_cpu_and_gpu_sets Max Max (Worker_init {1, 8} {0}) 1 2 =
     (Inr ({}, {}), Worker_init {1, 8} {0})"
proof -
  let ?w = "Worker_init {1, 8} {0}"
  have a: "allocate_cpu_and_gpu_sets Max Max ?w 1 1 =
     (Inr ({8}, {0}), ?w\<lparr>cpuset_free := {1}, gpuset_free := {}\<rparr>)"
    by code_simp
  have b: "allocate_cpu_and_gpu_sets Max Max ?w 1 2 = (Inr ({}, {}), ?w)"
    by code_simp
  from allocate_iff_sufficient [OF valid_choice_Max valid_choice_Max, of 1 1 ?w]
       allocate_iff_sufficient [OF valid_choice_Max valid_choice_Max, of 1 2 ?w] a b
  show ?thesis by simp
qed

text \<open>
  C2 as the specification words it, with the lowest members chosen first, fails: on the
  free cpus \<open>{1, 8}\<close>, a \<^verbatim>\<open>pop\<close> that yields \<open>8\<close> is within what \<^verbatim>\<open>set.pop()\<close>
  promises, and the run is then given cpu \<open>8\<close> while cpu \<open>1\<close> is free.
\<close>

theorem allocate_lowest_counterexample:
  "valid_choice Max \<and>
   cpuset_free (Worker_init {1, 8} {}) = {1, 8} \<and>
   fst (allocate_cpu_and_gpu_sets Max Max (Worker_init {1, 8} {}) 1 0) = Inr ({8}, {}) \<and>
   lowest 1 {1, 8} = {1} \<and>
   fst (allocate_cpu_and_gpu_sets Max Max (Worker_init {1, 8} {}) 1 0) \<noteq>
     Inr (lowest 1 {1, 8}, lowest 0 {})"
proof -
  have a: "fst (allocate_cpu_and_gpu_sets Max Max (Worker_init {1, 8} {}) 1 0) = Inr ({8}, {})"
    by code_simp
  have l: "lowest 1 {1, 8} = {1}" by code_simp
  have n: "({8}::int set) \<noteq> {1}" by simp
  show ?thesis using valid_choice_Max a l n by (simp add: Worker_init_def)
qed

text \<open>
  C9. A request for no cpus and no gpus is given two empty sets by the allocation, which
  leaves the worker unchanged, and \<^verbatim>\<open>_run\<close> then takes the two empty sets for a failed
  allocation: it logs the unsuccessful allocation and returns, whatever the run would
  have done, so that no run is created, started or recorded.
\<close>

theorem zero_request_dropped:
  "allocate_cpu_and_gpu_sets chc chg w 0 0 = (Inr ({}, {}), w) \<and>
   handle_run chc chg started w bundle_uuid 0 0 =
     (None, w, [LogUnsuccessfulAllocation bundle_uuid]) \<and>
   runs (fst (snd (handle_run chc chg started w bundle_uuid 0 0))) = runs w \<and>
   RunStarted bundle_uuid \<notin> set (snd (snd (handle_run chc chg started w bundle_uuid 0 0)))"
proof -
  have a: "allocate_cpu_and_gpu_sets chc chg w 0 0 = (Inr ({}, {}), w)"
    by (simp add: allocate_cpu_and_gpu_sets_def)
  then show ?thesis by (simp add: handle_run_def)
qed

section \<open>Claims about the main-loop guard and the client\<close>

text \<open>
  C6. \<^verbatim>\<open>_should_run\<close> is true exactly when the exiting flag is not set or a live run
  remains; it is false exactly when the flag is set and no live run remains.
\<close>

theorem should_run_iff:
  "should_run w = (\<not> exiting w \<or> has_runs w) \<and>
   (\<not> should_run w) = (exiting w \<and> \<not> has_runs w)"
  by (simp add: should_run_def is_exiting_def)

theorem should_run_iff_witness:
  "should_run (Worker_init {0} {}) \<and>
   \<not> should_run ((Worker_init {0} {})\<lparr>exiting := True\<rparr>) \<and>
   should_run ((Worker_init {0} {})\<lparr>exiting := True, runs := [(''u'', {0}, {})]\<rparr>)"
  using should_run_iff [of "Worker_init {0} {}"]
        should_run_iff [of "(Worker_init {0} {})\<lparr>exiting := True\<rparr>"]
        should_run_iff [of "(Worker_init {0} {})\<lparr>exiting := True, runs := [(''u'', {0}, {})]\<rparr>"]
  by (simp add: Worker_init_def has_runs_def)

text \<open>
  C10. When \<^verbatim>\<open>client.rm_user\<close> returns \<^verbatim>\<open>None\<close> (the user is not in the group),
  \<^verbatim>\<open>do_rm_user_command\<close> does not print the line it has for this case: building the
  line subscripts \<^verbatim>\<open>None\<close>, and the command ends with \<^verbatim>\<open>TypeError\<close>.
\<close>

theorem rm_user_absent_crashes:
  "do_rm_user_command None = Inl TypeError"
  by (simp add: do_rm_user_command_def name_and_group_def subscript_def)

section \<open>Properties of the download\<close>

lemma first_raise_no_callback:
  "list_all (\<lambda>ev. \<not> is_callback ev) xs \<Longrightarrow> first_raise cb seen xs = None"
  by (induction cb seen xs rule: first_raise.induct) simp_all

lemma well_reported_append:
  "well_reported n evs \<Longrightarrow> list_all (\<lambda>ev. \<not> is_read ev \<and> \<not> is_callback ev) xs \<Longrightarrow>
   well_reported n (evs @ xs)"
proof (induction n evs rule: well_reported.induct)
  case (1 n)
  then show ?case
  proof (induction xs)
    case Nil
    then show ?case by simp
  next
    case (Cons a xs)
    then show ?case by (cases a) simp_all
  qed
qed simp_all

text \<open>What one pass of the loop does, case by case.\<close>

lemma copyfileobj_facts:
  "copyfileobj cb wr d written = (r, d', written', evs) \<Longrightarrow>
     well_reported (bytes_downloaded d) evs \<and>
     list_all (\<lambda>ev. \<not> is_finish_download ev) evs \<and>
     (\<forall>xs. list_all (\<lambda>ev. \<not> is_callback ev) xs \<longrightarrow>
        (case first_raise cb (reported d) (evs @ xs) of
           None \<Rightarrow> True
         | Some (e, rest) \<Rightarrow> r = Some e \<and> rest = xs))"
proof (induction cb wr d written arbitrary: r d' written' evs rule: copyfileobj.induct)
  case (1 cb wr d written)
  show ?case
  proof (cases "old_read_method (stream d)")
    case (Pair res rest)
    show ?thesis
    proof (cases res)
      case (Inl e)
      with Pair "1.prems" have "evs = [ReadFailed e]"
        by (simp add: copyfileobj.simps [of cb wr d written] interruptable_read_def)
      then show ?thesis by (simp add: first_raise_no_callback)
    next
      case (Inr buf)
      let ?n = "bytes_downloaded d + length buf"
      let ?d1 = "d\<lparr>stream := rest, bytes_downloaded := ?n, reported := reported d @ [?n]\<rparr>"
      show ?thesis
      proof (cases "cb (reported d @ [?n])")
        case (Some e)
        with Pair Inr "1.prems" have "evs = [Read (length buf), Callback ?n]" "r = Some e"
          by (simp_all add: copyfileobj.simps [of cb wr d written] interruptable_read_def Let_def)
        then show ?thesis using Some by simp
      next
        case None
        then have rd: "interruptable_read cb d = (Inr buf, ?d1, [Read (length buf), Callback ?n])"
          using Pair Inr by (simp add: interruptable_read_def Let_def)
        show ?thesis
        proof (cases "buf = []")
          case True
          with rd "1.prems" have "evs = [Read (length buf), Callback ?n]"
            by (simp add: copyfileobj.simps [of cb wr d written])
          then show ?thesis using None by (simp add: first_raise_no_callback)
        next
          case False
          show ?thesis
          proof (cases "wr written buf")
            case (Some e)
            with rd False "1.prems" have "evs = [Read (length buf), Callback ?n]"
              by (simp add: copyfileobj.simps [of cb wr d written])
            then show ?thesis using None by (simp add: first_raise_no_callback)
          next
            case wnone: None
            obtain r2 d2 w2 evs2 where rec:
              "copyfileobj cb wr ?d1 (written @ buf) = (r2, d2, w2, evs2)"
              by (cases "copyfileobj cb wr ?d1 (written @ buf)") auto
            from "1.IH" [OF rd [symmetric] refl refl False wnone rec]
            have ih: "well_reported ?n evs2 \<and>
              list_all (\<lambda>ev. \<not> is_finish_download ev) evs2 \<and>
              (\<forall>xs. list_all (\<lambda>ev. \<not> is_callback ev) xs \<longrightarrow>
                 (case first_raise cb (reported d @ [?n]) (evs2 @ xs) of
                    None \<Rightarrow> True | Some (e, rest) \<Rightarrow> r2 = Some e \<and> rest = xs))"
              by simp
            from rd False wnone rec "1.prems"
            have res: "r = r2" "evs = [Read (length buf), Callback ?n] @ evs2"
              by (simp_all add: copyfileobj.simps [of cb wr d written])
            show ?thesis unfolding res using ih None by simp
          qed
        qed
      qed
    qed
  qed
qed

lemma store_body_facts:
  assumes "store_body env target (new_download fileobj) fs = (r, fs', evs)"
  shows "well_reported 0 evs \<and>
     list_all (\<lambda>ev. \<not> is_finish_download ev) evs \<and>
     (\<forall>xs. list_all (\<lambda>ev. \<not> is_callback ev) xs \<longrightarrow>
        (case first_raise (loop_callback env) [] (evs @ xs) of
           None \<Rightarrow> True
         | Some (e, rest) \<Rightarrow> r = Some e \<and> rest = xs))"
proof (cases "target = Directory")
  case True
  obtain r2 d2 w2 evs2 where c:
    "copyfileobj (loop_callback env) (extract_raises env) (new_download fileobj) [] =
       (r2, d2, w2, evs2)"
    by (cases "copyfileobj (loop_callback env) (extract_raises env) (new_download fileobj) []")
       auto
  with assms True have eq: "r2 = r" "evs2 = evs"
    by (simp_all add: store_body_def un_tar_directory_def)
  from copyfileobj_facts [OF c] show ?thesis unfolding eq by (simp add: new_download_def)
next
  case False
  show ?thesis
  proof (cases "open_raises env")
    case (Some e)
    with assms False have "evs = []" by (simp add: store_body_def)
    then show ?thesis by (simp add: first_raise_no_callback)
  next
    case None
    obtain r2 d2 w2 evs2 where c:
      "copyfileobj (loop_callback env) (write_raises env) (new_download fileobj) [] =
         (r2, d2, w2, evs2)"
      by (cases "copyfileobj (loop_callback env) (write_raises env) (new_download fileobj) []")
         auto
    with assms False None have eq: "r2 = r" "evs2 = evs" by (simp_all add: store_body_def)
    from copyfileobj_facts [OF c] show ?thesis unfolding eq by (simp add: new_download_def)
  qed
qed

text \<open>One pass of the loop, by what the stream holds next.\<close>

lemma copyfileobj_eof:
  "stream d = [] \<Longrightarrow>
   copyfileobj cb wr d written =
     (cb (reported d @ [bytes_downloaded d]),
      d\<lparr>stream := [], bytes_downloaded := bytes_downloaded d,
        reported := reported d @ [bytes_downloaded d]\<rparr>,
      written, [Read 0, Callback (bytes_downloaded d)])"
  by (cases "cb (reported d @ [bytes_downloaded d])")
     (simp_all add: copyfileobj.simps [of cb wr d written] interruptable_read_def Let_def)

lemma copyfileobj_read_raises:
  "stream d = ReadRaises e # rest \<Longrightarrow>
   copyfileobj cb wr d written = (Some e, d\<lparr>stream := rest\<rparr>, written, [ReadFailed e])"
  by (simp add: copyfileobj.simps [of cb wr d written] interruptable_read_def)

lemma copyfileobj_data:
  assumes "stream d = Data buf # rest"
    and "n = bytes_downloaded d + length buf"
    and "d1 = d\<lparr>stream := rest, bytes_downloaded := n, reported := reported d @ [n]\<rparr>"
  shows "copyfileobj cb wr d written =
     (case cb (reported d @ [n]) of
        Some e \<Rightarrow> (Some e, d1, written, [Read (length buf), Callback n])
      | None \<Rightarrow>
          if buf = [] then (None, d1, written, [Read (length buf), Callback n])
          else
            (case wr written buf of
               Some e \<Rightarrow> (Some e, d1, written, [Read (length buf), Callback n])
             | None \<Rightarrow>
                 (case copyfileobj cb wr d1 (written @ buf) of
                    (r, d2, written2, evs2) \<Rightarrow>
                      (r, d2, written2, [Read (length buf), Callback n] @ evs2))))"
  using assms
  by (simp add: copyfileobj.simps [of cb wr d written] interruptable_read_def Let_def
           split: option.splits)

lemma length_running_totals [simp]: "length (running_totals n ks) = length ks"
  by (induction ks arbitrary: n) simp_all

lemma take_running_totals:
  "take m (running_totals n ks) = running_totals n (take m ks)"
proof (induction ks arbitrary: n m)
  case Nil
  then show ?case by simp
next
  case (Cons k ks)
  then show ?case by (cases m) simp_all
qed

lemma read_sizes_reported [simp]: "read_sizes (reported_reads n ks) = ks"
  by (induction ks arbitrary: n) simp_all

lemma callback_args_reported [simp]: "callback_args (reported_reads n ks) = running_totals n ks"
  by (induction ks arbitrary: n) simp_all

text \<open>
  The record that the loop writes: the chunks of the stream, in order, each with its
  call of the callback, as far as the loop gets; a read that raises ends it.
\<close>

lemma copyfileobj_record:
  "copyfileobj cb wr d written = (r, d', written', evs) \<Longrightarrow>
   \<exists>m. m \<le> length (chunk_sizes (stream d)) \<and>
     (evs = reported_reads (bytes_downloaded d) (take m (chunk_sizes (stream d))) \<or>
      (\<exists>e. r = Some e \<and>
         evs = reported_reads (bytes_downloaded d) (take m (chunk_sizes (stream d))) @
               [ReadFailed e])) \<and>
     (r = None \<longrightarrow>
        m = length (chunk_sizes (stream d)) \<and>
        evs = reported_reads (bytes_downloaded d) (chunk_sizes (stream d)) \<and>
        (\<forall>k < length (chunk_sizes (stream d)).
           cb (reported d @
               take (Suc k) (running_totals (bytes_downloaded d) (chunk_sizes (stream d)))) =
           None))"
proof (induction "stream d" arbitrary: d written r d' written' evs)
  case Nil
  then have s: "stream d = []" by simp
  from Nil.prems copyfileobj_eof [OF s, of cb wr written]
  have e: "evs = [Read 0, Callback (bytes_downloaded d)]"
    "r = cb (reported d @ [bytes_downloaded d])"
    by simp_all
  have "(1::nat) \<le> length (chunk_sizes (stream d)) \<and>
     (evs = reported_reads (bytes_downloaded d) (take 1 (chunk_sizes (stream d)))) \<and>
     (r = None \<longrightarrow>
        1 = length (chunk_sizes (stream d)) \<and>
        evs = reported_reads (bytes_downloaded d) (chunk_sizes (stream d)) \<and>
        (\<forall>k < length (chunk_sizes (stream d)).
           cb (reported d @
               take (Suc k) (running_totals (bytes_downloaded d) (chunk_sizes (stream d)))) =
           None))"
    using s e by simp
  then show ?case by blast
next
  case (Cons a rest)
  then have s: "stream d = a # rest" by simp
  show ?case
  proof (cases a)
    case (ReadRaises e)
    with s Cons.prems copyfileobj_read_raises [of d e rest cb wr written]
    have "r = Some e" "evs = [ReadFailed e]" by simp_all
    then have "(0::nat) \<le> length (chunk_sizes (stream d)) \<and>
      (\<exists>e. r = Some e \<and>
         evs = reported_reads (bytes_downloaded d) (take 0 (chunk_sizes (stream d))) @
               [ReadFailed e]) \<and> r \<noteq> None"
      by simp
    then show ?thesis by blast
  next
    case (Data buf)
    let ?n = "bytes_downloaded d + length buf"
    let ?d1 = "d\<lparr>stream := rest, bytes_downloaded := ?n, reported := reported d @ [?n]\<rparr>"
    let ?ev1 = "[Read (length buf), Callback ?n]"
    from s Data have sd: "stream d = Data buf # rest" by simp
    note u = copyfileobj_data [OF sd refl refl, of cb wr written]
    have stop: "?thesis" if st: "evs = ?ev1" "r = None \<longrightarrow> buf = [] \<and> cb (reported d @ [?n]) = None"
    proof -
      have "(1::nat) \<le> length (chunk_sizes (stream d)) \<and>
        evs = reported_reads (bytes_downloaded d) (take 1 (chunk_sizes (stream d))) \<and>
        (r = None \<longrightarrow>
          1 = length (chunk_sizes (stream d)) \<and>
          evs = reported_reads (bytes_downloaded d) (chunk_sizes (stream d)) \<and>
          (\<forall>k < length (chunk_sizes (stream d)).
             cb (reported d @
                 take (Suc k) (running_totals (bytes_downloaded d) (chunk_sizes (stream d)))) =
             None))"
        using sd st by auto
      then show ?thesis by blast
    qed
    show ?thesis
    proof (cases "cb (reported d @ [?n])")
      case (Some e)
      with u Cons.prems have "evs = ?ev1" "r = Some e" by simp_all
      then show ?thesis by (intro stop) simp_all
    next
      case None
      show ?thesis
      proof (cases "buf = []")
        case True
        with u None Cons.prems have "evs = ?ev1" by simp
        then show ?thesis using True None by (intro stop) simp_all
      next
        case False
        show ?thesis
        proof (cases "wr written buf")
          case (Some e)
          with u None False Cons.prems have "evs = ?ev1" "r = Some e" by simp_all
          then show ?thesis by (intro stop) simp_all
        next
          case wnone: None
          obtain r2 d2 w2 evs2 where rec:
            "copyfileobj cb wr ?d1 (written @ buf) = (r2, d2, w2, evs2)"
            by (cases "copyfileobj cb wr ?d1 (written @ buf)") auto
          with u None False wnone Cons.prems have res: "r = r2" "evs = ?ev1 @ evs2"
            by simp_all
          have "rest = stream ?d1" by simp
          from Cons.hyps(1) [OF this rec] obtain m where m:
            "m \<le> length (chunk_sizes rest)"
            "evs2 = reported_reads ?n (take m (chunk_sizes rest)) \<or>
               (\<exists>e. r2 = Some e \<and>
                  evs2 = reported_reads ?n (take m (chunk_sizes rest)) @ [ReadFailed e])"
            "r2 = None \<longrightarrow>
               m = length (chunk_sizes rest) \<and>
               evs2 = reported_reads ?n (chunk_sizes rest) \<and>
               (\<forall>k < length (chunk_sizes rest).
                  cb ((reported d @ [?n]) @
                      take (Suc k) (running_totals ?n (chunk_sizes rest))) = None)"
            by auto
          have cs: "chunk_sizes (stream d) = length buf # chunk_sizes rest"
            using sd False by simp
          have a: "Suc m \<le> length (chunk_sizes (stream d))" using m(1) cs by simp
          have b: "evs = reported_reads (bytes_downloaded d) (take (Suc m) (chunk_sizes (stream d))) \<or>
              (\<exists>e. r = Some e \<and>
                 evs = reported_reads (bytes_downloaded d)
                         (take (Suc m) (chunk_sizes (stream d))) @ [ReadFailed e])"
            using m(2) res cs by auto
          have c: "r = None \<longrightarrow>
              Suc m = length (chunk_sizes (stream d)) \<and>
              evs = reported_reads (bytes_downloaded d) (chunk_sizes (stream d)) \<and>
              (\<forall>k < length (chunk_sizes (stream d)).
                 cb (reported d @
                     take (Suc k)
                       (running_totals (bytes_downloaded d) (chunk_sizes (stream d)))) = None)"
          proof
            assume rn: "r = None"
            with m(3) res have m3: "m = length (chunk_sizes rest)"
              "evs2 = reported_reads ?n (chunk_sizes rest)"
              "\<forall>k < length (chunk_sizes rest).
                  cb ((reported d @ [?n]) @
                      take (Suc k) (running_totals ?n (chunk_sizes rest))) = None"
              by simp_all
            have "cb (reported d @
                     take (Suc k)
                       (running_totals (bytes_downloaded d) (chunk_sizes (stream d)))) = None"
              if "k < length (chunk_sizes (stream d))" for k
            proof (cases k)
              case 0
              then show ?thesis using cs None by simp
            next
              case (Suc j)
              with that cs have "j < length (chunk_sizes rest)" by simp
              with m3(3) show ?thesis using Suc cs by simp
            qed
            with m3 res cs show "Suc m = length (chunk_sizes (stream d)) \<and>
              evs = reported_reads (bytes_downloaded d) (chunk_sizes (stream d)) \<and>
              (\<forall>k < length (chunk_sizes (stream d)).
                 cb (reported d @
                     take (Suc k)
                       (running_totals (bytes_downloaded d) (chunk_sizes (stream d)))) = None)"
              by simp
          qed
          from a b c show ?thesis by blast
        qed
      qed
    qed
  qed
qed

text \<open>
  The callback raising at the chunk of index \<open>k\<close>, and at none before: the loop ends
  there with that exception, when the file system does not fail first.
\<close>

lemma copyfileobj_interrupted:
  assumes "\<forall>written buf. wr written buf = None"
    and "k < length (chunk_sizes (stream d))"
    and "cb (reported d @
             take (Suc k) (running_totals (bytes_downloaded d) (chunk_sizes (stream d)))) =
         Some e"
    and "\<forall>j < k. cb (reported d @
             take (Suc j) (running_totals (bytes_downloaded d) (chunk_sizes (stream d)))) =
         None"
  shows "\<exists>d' written'. copyfileobj cb wr d written =
     (Some e, d', written',
      reported_reads (bytes_downloaded d) (take (Suc k) (chunk_sizes (stream d))))"
  using assms(2-4)
proof (induction "stream d" arbitrary: d written k)
  case Nil
  then have s: "stream d = []" by simp
  with Nil.prems have "k = 0" by simp
  with Nil.prems s copyfileobj_eof [OF s, of cb wr written] show ?case by simp
next
  case (Cons a rest)
  then have s: "stream d = a # rest" by simp
  show ?case
  proof (cases a)
    case (ReadRaises e')
    with s Cons.prems(1) show ?thesis by simp
  next
    case (Data buf)
    let ?n = "bytes_downloaded d + length buf"
    let ?d1 = "d\<lparr>stream := rest, bytes_downloaded := ?n, reported := reported d @ [?n]\<rparr>"
    from s Data have sd: "stream d = Data buf # rest" by simp
    note u = copyfileobj_data [OF sd refl refl, of cb wr written]
    show ?thesis
    proof (cases k)
      case 0
      with Cons.prems(2) sd have "cb (reported d @ [?n]) = Some e"
        by (cases "buf = []") simp_all
      with u 0 sd show ?thesis by (cases "buf = []") simp_all
    next
      case (Suc j)
      with Cons.prems(1) sd have ne: "buf \<noteq> []" by (cases "buf = []") simp_all
      then have cs: "chunk_sizes (stream d) = length buf # chunk_sizes rest"
        using sd by simp
      from Cons.prems(3) Suc have "cb (reported d @
             take (Suc 0) (running_totals (bytes_downloaded d) (chunk_sizes (stream d)))) = None"
        by blast
      then have c0: "cb (reported d @ [?n]) = None" using cs by simp
      have st: "rest = stream ?d1" by simp
      have j1: "j < length (chunk_sizes (stream ?d1))" using Cons.prems(1) Suc cs by simp
      have j2: "cb (reported ?d1 @
             take (Suc j) (running_totals (bytes_downloaded ?d1) (chunk_sizes (stream ?d1)))) =
         Some e"
        using Cons.prems(2) Suc cs by simp
      have j3: "\<forall>i < j. cb (reported ?d1 @
             take (Suc i) (running_totals (bytes_downloaded ?d1) (chunk_sizes (stream ?d1)))) =
         None"
      proof (intro allI impI)
        fix i assume "i < j"
        then have "Suc i < k" using Suc by simp
        with Cons.prems(3) have "cb (reported d @
             take (Suc (Suc i))
               (running_totals (bytes_downloaded d) (chunk_sizes (stream d)))) = None"
          by blast
        then show "cb (reported ?d1 @
             take (Suc i) (running_totals (bytes_downloaded ?d1) (chunk_sizes (stream ?d1)))) =
         None"
          using cs by simp
      qed
      from Cons.hyps(1) [OF st j1 j2 j3, of "written @ buf"]
      obtain d2 w2 where rec: "copyfileobj cb wr ?d1 (written @ buf) =
         (Some e, d2, w2, reported_reads ?n (take (Suc j) (chunk_sizes rest)))"
        by auto
      from u c0 ne assms(1) rec Suc cs show ?thesis by simp
    qed
  qed
qed

lemma read_sizes_append: "read_sizes (xs @ ys) = read_sizes xs @ read_sizes ys"
  by (induction xs rule: read_sizes.induct) simp_all

lemma callback_args_append: "callback_args (xs @ ys) = callback_args xs @ callback_args ys"
  by (induction xs rule: callback_args.induct) simp_all

lemma store_body_record:
  assumes "store_body env target (new_download fileobj) fs = (r, fs', evs)"
  shows "(\<exists>m \<le> length (chunk_sizes fileobj).
           read_sizes evs = take m (chunk_sizes fileobj) \<and>
           callback_args evs = running_totals 0 (take m (chunk_sizes fileobj))) \<and>
         (r = None \<longrightarrow>
            evs = reported_reads 0 (chunk_sizes fileobj) \<and>
            (\<forall>k < length (chunk_sizes fileobj).
               loop_callback env (take (Suc k) (running_totals 0 (chunk_sizes fileobj))) = None))"
proof -
  have loop: "?thesis"
    if c: "copyfileobj (loop_callback env) wr (new_download fileobj) [] = (r, d2, w2, evs)"
    for wr d2 w2
  proof -
    from copyfileobj_record [OF c] obtain m where m:
      "m \<le> length (chunk_sizes fileobj)"
      "evs = reported_reads 0 (take m (chunk_sizes fileobj)) \<or>
         (\<exists>e. r = Some e \<and> evs = reported_reads 0 (take m (chunk_sizes fileobj)) @ [ReadFailed e])"
      "r = None \<longrightarrow>
         evs = reported_reads 0 (chunk_sizes fileobj) \<and>
         (\<forall>k < length (chunk_sizes fileobj).
            loop_callback env (take (Suc k) (running_totals 0 (chunk_sizes fileobj))) = None)"
      by (auto simp: new_download_def)
    from m(2) have "read_sizes evs = take m (chunk_sizes fileobj) \<and>
           callback_args evs = running_totals 0 (take m (chunk_sizes fileobj))"
      by (auto simp: read_sizes_append callback_args_append)
    with m(1,3) show ?thesis by blast
  qed
  show ?thesis
  proof (cases "target = Directory")
    case True
    obtain r2 d2 w2 evs2 where c:
      "copyfileobj (loop_callback env) (extract_raises env) (new_download fileobj) [] =
         (r2, d2, w2, evs2)"
      by (cases "copyfileobj (loop_callback env) (extract_raises env) (new_download fileobj) []")
         auto
    with assms True have eq: "r2 = r" "evs2 = evs"
      by (simp_all add: store_body_def un_tar_directory_def)
    from c show ?thesis unfolding eq by (rule loop)
  next
    case False
    show ?thesis
    proof (cases "open_raises env")
      case (Some e)
      with assms False have "evs = []" "r = Some e" by (simp_all add: store_body_def)
      then have "(0::nat) \<le> length (chunk_sizes fileobj) \<and>
           read_sizes evs = take 0 (chunk_sizes fileobj) \<and>
           callback_args evs = running_totals 0 (take 0 (chunk_sizes fileobj))" "r \<noteq> None"
        by simp_all
      then show ?thesis by blast
    next
      case None
      obtain r2 d2 w2 evs2 where c:
        "copyfileobj (loop_callback env) (write_raises env) (new_download fileobj) [] =
           (r2, d2, w2, evs2)"
        by (cases "copyfileobj (loop_callback env) (write_raises env) (new_download fileobj) []")
           auto
      with assms False None have eq: "r2 = r" "evs2 = evs" by (simp_all add: store_body_def)
      from c show ?thesis unfolding eq by (rule loop)
    qed
  qed
qed

lemma store_body_interrupted:
  assumes "sink_never_fails env target"
    and "k < length (chunk_sizes fileobj)"
    and "loop_callback env (take (Suc k) (running_totals 0 (chunk_sizes fileobj))) = Some e"
    and "\<forall>j < k. loop_callback env (take (Suc j) (running_totals 0 (chunk_sizes fileobj))) = None"
  shows "\<exists>fs'. store_body env target (new_download fileobj) fs =
           (Some e, fs', reported_reads 0 (take (Suc k) (chunk_sizes fileobj)))"
proof -
  have loop: "\<exists>d' written'. copyfileobj (loop_callback env) wr (new_download fileobj) [] =
     (Some e, d', written', reported_reads 0 (take (Suc k) (chunk_sizes fileobj)))"
    if "\<forall>written buf. wr written buf = None" for wr
    using copyfileobj_interrupted [OF that, of k "new_download fileobj" "loop_callback env" e "[]"]
      assms(2-4)
    by (simp add: new_download_def)
  show ?thesis
  proof (cases "target = Directory")
    case True
    with assms(1) have "\<forall>written buf. extract_raises env written buf = None"
      by (simp add: sink_never_fails_def)
    from loop [OF this] True show ?thesis
      by (auto simp: store_body_def un_tar_directory_def)
  next
    case False
    with assms(1) have "open_raises env = None" "\<forall>written buf. write_raises env written buf = None"
      by (simp_all add: sink_never_fails_def)
    with loop [of "write_raises env"] False show ?thesis
      by (auto simp: store_body_def)
  qed
qed

section \<open>Claims about the download of a dependency\<close>

text \<open>
  C3. When \<^verbatim>\<open>add_dependency\<close> has to download, \<^verbatim>\<open>finish_download\<close> is called exactly
  once, whatever happens. When storing the download fails, that is, when un-tarring or
  copying the stream raises an exception, nothing is left at the dependency path,
  \<^verbatim>\<open>finish_download\<close> is called with \<^verbatim>\<open>success=False\<close>, after the path has been removed
  and the stream closed, and \<^verbatim>\<open>add_dependency\<close> raises that exception.
\<close>

theorem failed_store_is_cleaned_up:
  assumes "\<not> shared_file_system env" and "should_download env"
  shows "length (filter is_finish_download (snd (snd (add_dependency env fs)))) = 1 \<and>
     (\<forall>fileobj target e.
        bundle_contents env = Inr (fileobj, target) \<longrightarrow>
        fst (store_body env target (new_download fileobj) fs) = Some e \<longrightarrow>
        (\<exists>evs. add_dependency env fs =
           (Inl e, Absent,
            GetBundleContents # evs @ [RemovePath, CloseStream, FinishDownload False])))"
proof (cases "bundle_contents env")
  case (Inl e)
  with assms show ?thesis by (simp add: add_dependency_def)
next
  case (Inr p)
  obtain fileobj target where p: "p = (fileobj, target)" by (cases p)
  obtain r fs' evs where b: "store_body env target (new_download fileobj) fs = (r, fs', evs)"
    by (cases "store_body env target (new_download fileobj) fs") auto
  from store_body_facts [OF b]
  have nf: "filter is_finish_download evs = []"
    by (simp add: filter_empty_conv list_all_iff)
  show ?thesis
  proof (cases r)
    case None
    with assms Inr p b nf show ?thesis
      by (simp add: add_dependency_def store_dependency_def)
  next
    case (Some e)
    with assms Inr p b nf show ?thesis
      by (simp add: add_dependency_def store_dependency_def)
  qed
qed

text \<open>A directory download whose stream breaks after the first chunk.\<close>

theorem failed_store_is_cleaned_up_witness:
  "(let env = \<lparr>shared_file_system = False, should_download = True,
               dependency_path = ''/deps/d'',
               bundle_contents = Inr ([Data [1, 2, 3], ReadRaises (OtherException ''IOError'')],
                                      Directory),
               loop_callback = (\<lambda>seen. None), open_raises = None,
               write_raises = (\<lambda>written buf. None),
               extract_raises = (\<lambda>written buf. None)\<rparr>
    in \<not> shared_file_system env \<and> should_download env \<and>
       fst (store_body env Directory
              (new_download [Data [1, 2, 3], ReadRaises (OtherException ''IOError'')]) Absent) =
         Some (OtherException ''IOError'') \<and>
       add_dependency env Absent =
         (Inl (OtherException ''IOError''), Absent,
          [GetBundleContents, Read 3, Callback 3, ReadFailed (OtherException ''IOError''),
           RemovePath, CloseStream, FinishDownload False]) \<and>
       length (filter is_finish_download (snd (snd (add_dependency env Absent)))) = 1)"
proof -
  let ?env = "\<lparr>shared_file_system = False, should_download = True,
               dependency_path = ''/deps/d'',
               bundle_contents = Inr ([Data [1, 2, 3], ReadRaises (OtherException ''IOError'')],
                                      Directory),
               loop_callback = (\<lambda>seen. None), open_raises = None,
               write_raises = (\<lambda>written buf. None),
               extract_raises = (\<lambda>written buf. None)\<rparr>"
  have h: "\<not> shared_file_system ?env" "should_download ?env" by simp_all
  have s: "fst (store_body ?env Directory
              (new_download [Data [1, 2, 3], ReadRaises (OtherException ''IOError'')]) Absent) =
         Some (OtherException ''IOError'')"
    by code_simp
  have a: "add_dependency ?env Absent =
         (Inl (OtherException ''IOError''), Absent,
          [GetBundleContents, Read 3, Callback 3, ReadFailed (OtherException ''IOError''),
           RemovePath, CloseStream, FinishDownload False])"
    by code_simp
  from failed_store_is_cleaned_up [OF h, of Absent] s a show ?thesis
    by (simp add: Let_def)
qed

text \<open>
  C4. In the record of a download every chunk read from the stream is followed at once by
  a call of the callback with the number of bytes downloaded so far, and the callback is
  called at no other moment. The chunks read are the chunks of the stream that
  \<^verbatim>\<open>get_bundle_contents\<close> returned, in order, and the arguments of the callback are the
  running totals of their sizes. A download that completes has read and reported every
  chunk of the stream, and the callback has raised at none of them. At the first call at
  which the callback raises, the download ends: no further chunk is read, the path is
  removed, the stream closed, \<^verbatim>\<open>finish_download\<close> told of the failure, and
  \<^verbatim>\<open>add_dependency\<close> raises the exception of the callback. When the callback raises
  at the chunk of index \<open>k\<close> of the stream and at none before, and the file system does
  not fail first, exactly the chunks up to that one are read and \<^verbatim>\<open>add_dependency\<close>
  raises that exception.
\<close>

theorem callback_reports_and_interrupts:
  "well_reported 0 (snd (snd (add_dependency env fs))) \<and>
   (\<forall>e rest.
      first_raise (loop_callback env) [] (snd (snd (add_dependency env fs))) = Some (e, rest) \<longrightarrow>
      fst (add_dependency env fs) = Inl e \<and>
      rest = [RemovePath, CloseStream, FinishDownload False]) \<and>
   (\<not> shared_file_system env \<longrightarrow> should_download env \<longrightarrow>
    bundle_contents env = Inr (fileobj, target) \<longrightarrow>
      (\<exists>m \<le> length (chunk_sizes fileobj).
         read_sizes (snd (snd (add_dependency env fs))) = take m (chunk_sizes fileobj) \<and>
         callback_args (snd (snd (add_dependency env fs))) =
           running_totals 0 (take m (chunk_sizes fileobj))) \<and>
      (\<forall>path. fst (add_dependency env fs) = Inr path \<longrightarrow>
         snd (snd (add_dependency env fs)) =
           GetBundleContents # reported_reads 0 (chunk_sizes fileobj) @
           [CloseStream, FinishDownload True] \<and>
         (\<forall>k < length (chunk_sizes fileobj).
            loop_callback env (take (Suc k) (running_totals 0 (chunk_sizes fileobj))) = None)) \<and>
      (\<forall>k e.
         sink_never_fails env target \<longrightarrow>
         k < length (chunk_sizes fileobj) \<longrightarrow>
         loop_callback env (take (Suc k) (running_totals 0 (chunk_sizes fileobj))) = Some e \<longrightarrow>
         (\<forall>j < k. loop_callback env (take (Suc j) (running_totals 0 (chunk_sizes fileobj))) =
                    None) \<longrightarrow>
         add_dependency env fs =
           (Inl e, Absent,
            GetBundleContents # reported_reads 0 (take (Suc k) (chunk_sizes fileobj)) @
            [RemovePath, CloseStream, FinishDownload False])))"
proof -
  have old: "well_reported 0 (snd (snd (add_dependency env fs))) \<and>
   (\<forall>e rest.
      first_raise (loop_callback env) [] (snd (snd (add_dependency env fs))) = Some (e, rest) \<longrightarrow>
      fst (add_dependency env fs) = Inl e \<and>
      rest = [RemovePath, CloseStream, FinishDownload False])"
  proof (cases "\<not> shared_file_system env \<and> should_download env")
    case False
    then show ?thesis by (auto simp: add_dependency_def)
  next
    case True
    show ?thesis
    proof (cases "bundle_contents env")
      case (Inl e)
      with True show ?thesis by (simp add: add_dependency_def)
    next
      case (Inr p)
      obtain fobj tgt where p: "p = (fobj, tgt)" by (cases p)
      obtain r fs' evs where b: "store_body env tgt (new_download fobj) fs = (r, fs', evs)"
        by (cases "store_body env tgt (new_download fobj) fs") auto
      note f = store_body_facts [OF b]
      show ?thesis
      proof (cases r)
        case None
        let ?xs = "[CloseStream, FinishDownload True]"
        have tr: "add_dependency env fs =
            (Inr (dependency_path env), fs', GetBundleContents # evs @ ?xs)"
          using True Inr p b None by (simp add: add_dependency_def store_dependency_def)
        have w: "well_reported 0 (evs @ ?xs)"
          using f by (intro well_reported_append) simp_all
        have "first_raise (loop_callback env) [] (evs @ ?xs) = None"
        proof (cases "first_raise (loop_callback env) [] (evs @ ?xs)")
          case (Some q)
          have "list_all (\<lambda>ev. \<not> is_callback ev) ?xs" by simp
          with f Some None show ?thesis by (cases q) fastforce
        qed simp
        with tr w show ?thesis by simp
      next
        case (Some e)
        let ?xs = "[RemovePath, CloseStream, FinishDownload False]"
        have tr: "add_dependency env fs = (Inl e, Absent, GetBundleContents # evs @ ?xs)"
          using True Inr p b Some by (simp add: add_dependency_def store_dependency_def)
        have w: "well_reported 0 (evs @ ?xs)"
          using f by (intro well_reported_append) simp_all
        have "\<forall>e' rest. first_raise (loop_callback env) [] (evs @ ?xs) = Some (e', rest) \<longrightarrow>
                 e' = e \<and> rest = ?xs"
        proof (intro allI impI)
          fix e' rest
          assume a: "first_raise (loop_callback env) [] (evs @ ?xs) = Some (e', rest)"
          have "list_all (\<lambda>ev. \<not> is_callback ev) ?xs" by simp
          with f a Some show "e' = e \<and> rest = ?xs" by fastforce
        qed
        with tr w show ?thesis by simp
      qed
    qed
  qed
  have new: "(\<exists>m \<le> length (chunk_sizes fileobj).
         read_sizes (snd (snd (add_dependency env fs))) = take m (chunk_sizes fileobj) \<and>
         callback_args (snd (snd (add_dependency env fs))) =
           running_totals 0 (take m (chunk_sizes fileobj))) \<and>
      (\<forall>path. fst (add_dependency env fs) = Inr path \<longrightarrow>
         snd (snd (add_dependency env fs)) =
           GetBundleContents # reported_reads 0 (chunk_sizes fileobj) @
           [CloseStream, FinishDownload True] \<and>
         (\<forall>k < length (chunk_sizes fileobj).
            loop_callback env (take (Suc k) (running_totals 0 (chunk_sizes fileobj))) = None)) \<and>
      (\<forall>k e.
         sink_never_fails env target \<longrightarrow>
         k < length (chunk_sizes fileobj) \<longrightarrow>
         loop_callback env (take (Suc k) (running_totals 0 (chunk_sizes fileobj))) = Some e \<longrightarrow>
         (\<forall>j < k. loop_callback env (take (Suc j) (running_totals 0 (chunk_sizes fileobj))) =
                    None) \<longrightarrow>
         add_dependency env fs =
           (Inl e, Absent,
            GetBundleContents # reported_reads 0 (take (Suc k) (chunk_sizes fileobj)) @
            [RemovePath, CloseStream, FinishDownload False]))"
    if h: "\<not> shared_file_system env" "should_download env"
      "bundle_contents env = Inr (fileobj, target)"
  proof -
    obtain r fs' evs where b: "store_body env target (new_download fileobj) fs = (r, fs', evs)"
      by (cases "store_body env target (new_download fileobj) fs") auto
    note rc = store_body_record [OF b]
    have tr: "snd (snd (add_dependency env fs)) =
        GetBundleContents # evs @
        (if r = None then [CloseStream, FinishDownload True]
         else [RemovePath, CloseStream, FinishDownload False])"
      "(\<exists>path. fst (add_dependency env fs) = Inr path) = (r = None)"
      using h b by (cases r; simp add: add_dependency_def store_dependency_def)+
    have a: "\<exists>m \<le> length (chunk_sizes fileobj).
         read_sizes (snd (snd (add_dependency env fs))) = take m (chunk_sizes fileobj) \<and>
         callback_args (snd (snd (add_dependency env fs))) =
           running_totals 0 (take m (chunk_sizes fileobj))"
    proof -
      have "read_sizes (snd (snd (add_dependency env fs))) = read_sizes evs"
        "callback_args (snd (snd (add_dependency env fs))) = callback_args evs"
        unfolding tr(1) by (simp_all add: read_sizes_append callback_args_append)
      with rc show ?thesis by simp
    qed
    have s: "\<forall>path. fst (add_dependency env fs) = Inr path \<longrightarrow>
         snd (snd (add_dependency env fs)) =
           GetBundleContents # reported_reads 0 (chunk_sizes fileobj) @
           [CloseStream, FinishDownload True] \<and>
         (\<forall>k < length (chunk_sizes fileobj).
            loop_callback env (take (Suc k) (running_totals 0 (chunk_sizes fileobj))) = None)"
    proof (intro allI impI)
      fix path assume "fst (add_dependency env fs) = Inr path"
      with tr(2) have "r = None" by blast
      with rc tr(1) show "snd (snd (add_dependency env fs)) =
           GetBundleContents # reported_reads 0 (chunk_sizes fileobj) @
           [CloseStream, FinishDownload True] \<and>
         (\<forall>k < length (chunk_sizes fileobj).
            loop_callback env (take (Suc k) (running_totals 0 (chunk_sizes fileobj))) = None)"
        by simp
    qed
    have i: "\<forall>k e.
         sink_never_fails env target \<longrightarrow>
         k < length (chunk_sizes fileobj) \<longrightarrow>
         loop_callback env (take (Suc k) (running_totals 0 (chunk_sizes fileobj))) = Some e \<longrightarrow>
         (\<forall>j < k. loop_callback env (take (Suc j) (running_totals 0 (chunk_sizes fileobj))) =
                    None) \<longrightarrow>
         add_dependency env fs =
           (Inl e, Absent,
            GetBundleContents # reported_reads 0 (take (Suc k) (chunk_sizes fileobj)) @
            [RemovePath, CloseStream, FinishDownload False])"
    proof (intro allI impI)
      fix k e
      assume "sink_never_fails env target" "k < length (chunk_sizes fileobj)"
        "loop_callback env (take (Suc k) (running_totals 0 (chunk_sizes fileobj))) = Some e"
        "\<forall>j < k. loop_callback env (take (Suc j) (running_totals 0 (chunk_sizes fileobj))) = None"
      from store_body_interrupted [OF this, of fs] obtain fs2 where
        "store_body env target (new_download fileobj) fs =
           (Some e, fs2, reported_reads 0 (take (Suc k) (chunk_sizes fileobj)))"
        by blast
      with h show "add_dependency env fs =
           (Inl e, Absent,
            GetBundleContents # reported_reads 0 (take (Suc k) (chunk_sizes fileobj)) @
            [RemovePath, CloseStream, FinishDownload False])"
        by (simp add: add_dependency_def store_dependency_def)
    qed
    from a s i show ?thesis by blast
  qed
  from old new show ?thesis by blast
qed

text \<open>
  A file of three chunks and a callback that raises once four bytes or more have been
  downloaded: it raises at the second chunk, and the third chunk is never read.
\<close>

theorem callback_reports_and_interrupts_witness:
  "(let fileobj = [Data [1, 2, 3], Data [4, 5], Data [6]];
        env = \<lparr>shared_file_system = False, should_download = True,
               dependency_path = ''/deps/f'',
               bundle_contents = Inr (fileobj, SingleFile),
               loop_callback =
                 (\<lambda>seen. if 4 \<le> last seen then Some (OtherException ''Killed'') else None),
               open_raises = None,
               write_raises = (\<lambda>written buf. None),
               extract_raises = (\<lambda>written buf. None)\<rparr>
    in chunk_sizes fileobj = [3, 2, 1, 0] \<and>
       running_totals 0 (chunk_sizes fileobj) = [3, 5, 6, 6] \<and>
       sink_never_fails env SingleFile \<and>
       loop_callback env [3] = None \<and>
       loop_callback env [3, 5] = Some (OtherException ''Killed'') \<and>
       add_dependency env Absent =
         (Inl (OtherException ''Killed''), Absent,
          [GetBundleContents, Read 3, Callback 3, Read 2, Callback 5,
           RemovePath, CloseStream, FinishDownload False]) \<and>
       first_raise (loop_callback env) [] (snd (snd (add_dependency env Absent))) =
         Some (OtherException ''Killed'', [RemovePath, CloseStream, FinishDownload False]) \<and>
       well_reported 0 (snd (snd (add_dependency env Absent))))"
proof -
  let ?fileobj = "[Data [1, 2, 3], Data [4, 5], Data [6::nat]]"
  let ?env = "\<lparr>shared_file_system = False, should_download = True,
               dependency_path = ''/deps/f'',
               bundle_contents = Inr (?fileobj, SingleFile),
               loop_callback =
                 (\<lambda>seen. if 4 \<le> last seen then Some (OtherException ''Killed'') else None),
               open_raises = None,
               write_raises = (\<lambda>written buf. None),
               extract_raises = (\<lambda>written buf. None)\<rparr>"
  have cs: "chunk_sizes ?fileobj = [3, 2, 1, 0]" by simp
  have rt: "running_totals 0 (chunk_sizes ?fileobj) = [3, 5, 6, 6]" by simp
  have sk: "sink_never_fails ?env SingleFile" by (simp add: sink_never_fails_def)
  have h: "\<not> shared_file_system ?env" "should_download ?env"
    "bundle_contents ?env = Inr (?fileobj, SingleFile)"
    by simp_all
  have k: "Suc 0 < length (chunk_sizes ?fileobj)" by simp
  have c1: "loop_callback ?env (take (Suc (Suc 0)) (running_totals 0 (chunk_sizes ?fileobj))) =
      Some (OtherException ''Killed'')"
    by simp
  have c0: "\<forall>j < Suc 0.
      loop_callback ?env (take (Suc j) (running_totals 0 (chunk_sizes ?fileobj))) = None"
    by simp
  note t = callback_reports_and_interrupts [of ?env Absent ?fileobj SingleFile]
  from t have "\<forall>k e.
         sink_never_fails ?env SingleFile \<longrightarrow>
         k < length (chunk_sizes ?fileobj) \<longrightarrow>
         loop_callback ?env (take (Suc k) (running_totals 0 (chunk_sizes ?fileobj))) = Some e \<longrightarrow>
         (\<forall>j < k. loop_callback ?env (take (Suc j) (running_totals 0 (chunk_sizes ?fileobj))) =
                    None) \<longrightarrow>
         add_dependency ?env Absent =
           (Inl e, Absent,
            GetBundleContents # reported_reads 0 (take (Suc k) (chunk_sizes ?fileobj)) @
            [RemovePath, CloseStream, FinishDownload False])"
    using h by blast
  from this [rule_format, OF sk k c1] c0
  have a: "add_dependency ?env Absent =
           (Inl (OtherException ''Killed''), Absent,
            GetBundleContents # reported_reads 0 (take (Suc (Suc 0)) (chunk_sizes ?fileobj)) @
            [RemovePath, CloseStream, FinishDownload False])"
    by blast
  have a': "add_dependency ?env Absent =
         (Inl (OtherException ''Killed''), Absent,
          [GetBundleContents, Read 3, Callback 3, Read 2, Callback 5,
           RemovePath, CloseStream, FinishDownload False])"
    unfolding a by simp
  have f: "first_raise (loop_callback ?env) [] (snd (snd (add_dependency ?env Absent))) =
         Some (OtherException ''Killed'', [RemovePath, CloseStream, FinishDownload False])"
    unfolding a' by simp
  have w: "well_reported 0 (snd (snd (add_dependency ?env Absent)))"
    using t by (rule conjunct1)
  have l: "loop_callback ?env [3] = None"
    "loop_callback ?env [3, 5] = Some (OtherException ''Killed'')"
    by simp_all
  from cs rt sk l a' f w show ?thesis by (simp only: Let_def simp_thms)
qed

section \<open>Properties of the main loop and of the upgrade\<close>

lemma count_event_append:
  "count_event ev (xs @ ys) = count_event ev xs + count_event ev ys"
  by (induction xs) simp_all

lemma count_event_absent: "ev \<notin> set xs \<Longrightarrow> count_event ev xs = 0"
  by (induction xs) auto

lemma allocate_keeps_flags:
  "allocate_cpu_and_gpu_sets chc chg w n_cpus n_gpus = (res, w') \<Longrightarrow>
   last_checkin_successful w' = last_checkin_successful w \<and> exiting w' = exiting w \<and>
   should_upgrade w' = should_upgrade w \<and> runs w' = runs w"
  by (auto simp: allocate_cpu_and_gpu_sets_def split: if_splits prod.splits option.splits)

lemma handle_run_flag:
  assumes "handle_run chc chg started w u n_cpus n_gpus = (r, w', evs)"
  shows "last_checkin_successful w' = last_checkin_successful w \<and> exiting w' = exiting w \<and>
         should_upgrade w' = should_upgrade w \<and> LogConnected \<notin> set evs"
proof -
  obtain res w1 where a: "allocate_cpu_and_gpu_sets chc chg w n_cpus n_gpus = (res, w1)"
    by (cases "allocate_cpu_and_gpu_sets chc chg w n_cpus n_gpus") auto
  from allocate_keeps_flags [OF a] have f: "last_checkin_successful w1 = last_checkin_successful w"
    "exiting w1 = exiting w" "should_upgrade w1 = should_upgrade w"
    by simp_all
  from assms a f show ?thesis
    by (auto simp: handle_run_def deallocate_cpu_and_sets_def split: sum.splits if_splits prod.splits)
qed

lemma checkin_flag:
  assumes "checkin w env = (r, w', evs)"
  shows "last_checkin_successful w' = last_checkin_successful w \<and> LogConnected \<notin> set evs \<and>
         (exiting w \<longrightarrow> exiting w') \<and> (should_upgrade w \<longrightarrow> should_upgrade w') \<and>
         (\<exists>rest. evs = CheckinCall # rest)"
proof (cases "response env")
  case (Inl e)
  with assms show ?thesis by (auto simp: checkin_def)
next
  case (Inr mo)
  show ?thesis
  proof (cases mo)
    case None
    with Inr assms show ?thesis by (auto simp: checkin_def)
  next
    case (Some m)
    show ?thesis
    proof (cases m)
      case (RunMessage u n_cpus n_gpus)
      obtain r1 w1 evs1 where h:
        "handle_run (choose_cpu env) (choose_gpu env) (run_started env) w u n_cpus n_gpus =
           (r1, w1, evs1)"
        by (cases "handle_run (choose_cpu env) (choose_gpu env) (run_started env) w u n_cpus n_gpus")
           auto
      from handle_run_flag [OF h] h RunMessage Some Inr assms show ?thesis
        by (auto simp: checkin_def)
    qed (use Some Inr assms in \<open>auto simp: checkin_def\<close>)
  qed
qed

lemma checkin_upgrade:
  "response env = Inr (Some UpgradeMessage) \<Longrightarrow>
   checkin w env = (None, w\<lparr>exiting := True, should_upgrade := True\<rparr>, [CheckinCall])"
  by (simp add: checkin_def)

lemma subtract_run_sets_flag:
  "subtract_run_sets order w sets = (r, w') \<Longrightarrow>
   last_checkin_successful w' = last_checkin_successful w \<and> exiting w' = exiting w \<and>
   should_upgrade w' = should_upgrade w"
  by (induction order w sets arbitrary: r w' rule: subtract_run_sets.induct)
     (auto split: prod.splits option.splits)

lemma resume_flag:
  assumes "resume_previous_runs w env = (r, w', evs)"
  shows "last_checkin_successful w' = last_checkin_successful w \<and> exiting w' = exiting w \<and>
         should_upgrade w' = should_upgrade w \<and> LogConnected \<notin> set evs"
proof -
  obtain r1 w1 where s: "subtract_run_sets (iter_order env) (w\<lparr>runs := runs w @ previous_runs env\<rparr>)
      (map snd (runs w @ previous_runs env)) = (r1, w1)"
    by (cases "subtract_run_sets (iter_order env) (w\<lparr>runs := runs w @ previous_runs env\<rparr>)
      (map snd (runs w @ previous_runs env))") auto
  from subtract_run_sets_flag [OF s] have "last_checkin_successful w1 = last_checkin_successful w"
    "exiting w1 = exiting w" "should_upgrade w1 = should_upgrade w"
    by simp_all
  with assms s show ?thesis
    by (auto simp: resume_previous_runs_def split: option.splits)
qed

lemma release_sets_of_flags:
  "last_checkin_successful (release_sets_of u rs w) = last_checkin_successful w \<and>
   exiting (release_sets_of u rs w) = exiting w \<and>
   should_upgrade (release_sets_of u rs w) = should_upgrade w \<and>
   runs (release_sets_of u rs w) = runs w"
  by (induction u rs w rule: release_sets_of.induct)
     (simp_all add: deallocate_cpu_and_sets_def)

lemma runs_terminate_flags:
  "last_checkin_successful (runs_terminate w us) = last_checkin_successful w \<and>
   exiting (runs_terminate w us) = exiting w \<and>
   should_upgrade (runs_terminate w us) = should_upgrade w"
  by (induction w us rule: runs_terminate.induct)
     (simp_all add: run_terminates_def finish_run_def release_sets_of_flags)

lemma other_threads_flags:
  "last_checkin_successful (other_threads env w) = last_checkin_successful w \<and>
   should_upgrade (other_threads env w) = should_upgrade w \<and>
   exiting (other_threads env w) = (exiting w \<or> signal_received env)"
  by (simp add: other_threads_def signal_def runs_terminate_flags)

text \<open>The \<^verbatim>\<open>try\<close> of a pass: its events, the flag, and the two flags of the drain.\<close>

lemma try_block_facts:
  assumes "try_block w resumed env = (r, w', resumed', evs)"
  shows "count_event LogConnected evs = (if r = None \<and> \<not> last_checkin_successful w then 1 else 0) \<and>
         last_checkin_successful w' = (r = None \<or> last_checkin_successful w) \<and>
         (exiting w \<longrightarrow> exiting w') \<and> (should_upgrade w \<longrightarrow> should_upgrade w') \<and>
         (response env = Inr (Some UpgradeMessage) \<longrightarrow> exiting w' \<and> should_upgrade w') \<and>
         (\<exists>rest. evs = CheckinCall # rest)"
proof -
  obtain r1 w1 evs1 where c: "checkin w env = (r1, w1, evs1)"
    by (cases "checkin w env") auto
  note c1 = checkin_flag [OF c]
  then obtain rest1 where hd: "evs1 = CheckinCall # rest1" by blast
  from c1 have n1: "count_event LogConnected evs1 = 0" by (simp add: count_event_absent)
  have up: "response env = Inr (Some UpgradeMessage) \<longrightarrow> exiting w1 \<and> should_upgrade w1"
    using c checkin_upgrade [of env w] by auto
  show ?thesis
  proof (cases r1)
    case (Some e)
    with assms c have "r = Some e" "w' = w1" "evs = evs1" by (simp_all add: try_block_def)
    with c1 n1 up hd show ?thesis by simp
  next
    case None
    obtain r2 w2 evs2 where p:
      "(if \<not> resumed then resume_previous_runs w1 env else (None, w1, [])) = (r2, w2, evs2)"
      by (cases "if \<not> resumed then resume_previous_runs w1 env else (None, w1, [])") auto
    have p1: "last_checkin_successful w2 = last_checkin_successful w1 \<and> exiting w2 = exiting w1 \<and>
         should_upgrade w2 = should_upgrade w1 \<and> LogConnected \<notin> set evs2"
    proof (cases resumed)
      case True
      with p show ?thesis by auto
    next
      case False
      with p have "resume_previous_runs w1 env = (r2, w2, evs2)" by simp
      from resume_flag [OF this] show ?thesis .
    qed
    then have n2: "count_event LogConnected evs2 = 0" by (simp add: count_event_absent)
    show ?thesis
    proof (cases r2)
      case (Some e)
      with assms c None p have "r = Some e" "w' = w2" "evs = evs1 @ evs2"
        by (simp_all add: try_block_def)
      with c1 p1 n1 n2 up hd show ?thesis by (simp add: count_event_append)
    next
      case r2_none: None
      show ?thesis
      proof (cases "save_state_raises env")
        case (Some e)
        with assms c None p r2_none have "r = Some e" "w' = w2" "evs = evs1 @ evs2"
          by (simp_all add: try_block_def)
        with c1 p1 n1 n2 up hd show ?thesis by (simp add: count_event_append)
      next
        case s_none: None
        with assms c None p r2_none have "r = None"
          "w' = w2\<lparr>last_checkin_successful := True\<rparr>"
          "evs = evs1 @ evs2 @ [SaveState] @
             (if \<not> last_checkin_successful w2 then [LogConnected] else [])"
          by (simp_all add: try_block_def)
        with c1 p1 n1 n2 up hd show ?thesis by (simp add: count_event_append)
      qed
    qed
  qed
qed

lemma iteration_facts:
  "count_event LogConnected (snd (snd (iteration w resumed env))) =
     (if fst (try_block w resumed env) = None \<and> \<not> last_checkin_successful w then 1 else 0) \<and>
   last_checkin_successful (fst (iteration w resumed env)) =
     (fst (try_block w resumed env) = None) \<and>
   (exiting w \<longrightarrow> exiting (fst (iteration w resumed env))) \<and>
   (should_upgrade w \<longrightarrow> should_upgrade (fst (iteration w resumed env))) \<and>
   (response env = Inr (Some UpgradeMessage) \<longrightarrow>
      exiting (fst (iteration w resumed env)) \<and> should_upgrade (fst (iteration w resumed env))) \<and>
   (\<exists>rest. snd (snd (iteration w resumed env)) = CheckinCall # rest)"
proof -
  obtain r w' resumed' evs where t: "try_block w resumed env = (r, w', resumed', evs)"
    by (cases "try_block w resumed env") auto
  note f = try_block_facts [OF t]
  then obtain rest where hd: "evs = CheckinCall # rest" by blast
  show ?thesis
  proof (cases r)
    case None
    with t f hd show ?thesis
      by (simp add: iteration_def other_threads_flags)
  next
    case (Some e)
    with t f hd show ?thesis
      by (simp add: iteration_def other_threads_flags count_event_append)
  qed
qed

lemma failed_checkin_iteration:
  "response env = Inl e \<Longrightarrow>
   iteration w resumed env =
     (other_threads env (w\<lparr>last_checkin_successful := False\<rparr>), resumed,
      [CheckinCall, PrintExc e, Sleep 1])"
  by (simp add: iteration_def try_block_def checkin_def)

lemma failed_checkins_loop:
  "\<not> exiting w \<Longrightarrow>
   list_all (\<lambda>env. isl (response env) \<and> \<not> signal_received env) envs \<Longrightarrow>
   \<not> fst (main_loop w resumed envs) \<and>
   count_event (Sleep 1) (snd (snd (snd (main_loop w resumed envs)))) = length envs \<and>
   count_event CheckinCall (snd (snd (snd (main_loop w resumed envs)))) = length envs"
proof (induction envs arbitrary: w)
  case Nil
  then show ?case by (simp add: should_run_def is_exiting_def)
next
  case (Cons env envs)
  from Cons.prems obtain e where e: "response env = Inl e" and ns: "\<not> signal_received env"
    by (auto simp: isl_def)
  let ?w = "other_threads env (w\<lparr>last_checkin_successful := False\<rparr>)"
  have ne: "\<not> exiting ?w" using Cons.prems(1) ns by (simp add: other_threads_flags)
  from Cons.IH [OF this] Cons.prems(2)
  have ih: "\<not> fst (main_loop ?w resumed envs) \<and>
     count_event (Sleep 1) (snd (snd (snd (main_loop ?w resumed envs)))) = length envs \<and>
     count_event CheckinCall (snd (snd (snd (main_loop ?w resumed envs)))) = length envs"
    by simp
  have sr: "should_run w" using Cons.prems(1) by (simp add: should_run_def is_exiting_def)
  show ?case
    using sr ih failed_checkin_iteration [OF e, of w resumed]
    by (simp add: split_beta count_event_append)
qed

lemma next_attempt:
  assumes "should_run w" and "response env = Inl e"
    and "should_run (fst (iteration w resumed env))"
  shows "\<exists>rest. snd (snd (snd (main_loop w resumed (env # env2 # envs)))) =
           [CheckinCall, PrintExc e, Sleep 1, CheckinCall] @ rest"
proof -
  let ?w1 = "other_threads env (w\<lparr>last_checkin_successful := False\<rparr>)"
  note i = failed_checkin_iteration [OF assms(2), of w resumed]
  from assms(3) i have s1: "should_run ?w1" by simp
  from iteration_facts [of ?w1 resumed env2] obtain rest where
    hd: "snd (snd (iteration ?w1 resumed env2)) = CheckinCall # rest"
    by blast
  obtain w2 r2 evs2 where i2: "iteration ?w1 resumed env2 = (w2, r2, evs2)"
    by (cases "iteration ?w1 resumed env2") auto
  with hd have e2: "evs2 = CheckinCall # rest" by simp
  obtain en w3 r3 evs3 where m: "main_loop w2 r2 envs = (en, w3, r3, evs3)"
    by (cases "main_loop w2 r2 envs") auto
  have "snd (snd (snd (main_loop w resumed (env # env2 # envs)))) =
        [CheckinCall, PrintExc e, Sleep 1, CheckinCall] @ (rest @ evs3)"
    using assms(1) s1 i i2 e2 m by simp
  then show ?thesis by blast
qed

lemma main_loop_restorations:
  "count_event LogConnected (snd (snd (snd (main_loop w resumed envs)))) =
     restorations (last_checkin_successful w) (pass_results w resumed envs)"
proof (induction envs arbitrary: w resumed)
  case Nil
  then show ?case by simp
next
  case (Cons env envs)
  show ?case
  proof (cases "should_run w")
    case False
    then show ?thesis by simp
  next
    case True
    obtain w1 r1 evs1 where i: "iteration w resumed env = (w1, r1, evs1)"
      by (cases "iteration w resumed env") auto
    obtain en w2 r2 evs2 where m: "main_loop w1 r1 envs = (en, w2, r2, evs2)"
      by (cases "main_loop w1 r1 envs") auto
    from iteration_facts [of w resumed env] i
    have f: "count_event LogConnected evs1 =
        (if fst (try_block w resumed env) = None \<and> \<not> last_checkin_successful w then 1 else 0)"
      "last_checkin_successful w1 = (fst (try_block w resumed env) = None)"
      by simp_all
    from Cons.IH [of w1 r1] m
    have ih: "count_event LogConnected evs2 =
       restorations (last_checkin_successful w1) (pass_results w1 r1 envs)"
      by simp
    show ?thesis using True i m f ih by (simp add: count_event_append)
  qed
qed






section \<open>Claims about the main loop and the upgrade\<close>

text \<open>
  C8, as the code has it. A check-in that raises is followed by the traceback and a sleep
  of one second and, when the guard of the loop holds again, by another check-in; while
  no drain is requested, however many check-ins fail in a row, the loop is still running,
  with one check-in and one sleep for each. Whenever the \<^verbatim>\<open>try\<close> of a pass raises, the
  pass ends with the traceback and the sleep. The message of restored connectivity is
  logged once in a pass whose whole \<^verbatim>\<open>try\<close> runs to the end (the check-in, the first
  \<^verbatim>\<open>resume_previous_runs\<close> and \<^verbatim>\<open>save_state\<close>) when \<^verbatim>\<open>_last_checkin_successful\<close> was
  false, and not at all in any other pass; the flag after a pass tells whether its
  \<^verbatim>\<open>try\<close> ran to the end. So over any number of passes the message is logged exactly
  once for each pass that runs to the end after a pass that did not, or after the start.
\<close>

theorem checkin_retry_and_connected_log:
  "(response env = Inl e \<longrightarrow>
      iteration w resumed env =
        (other_threads env (w\<lparr>last_checkin_successful := False\<rparr>), resumed,
         [CheckinCall, PrintExc e, Sleep 1])) \<and>
   (should_run w \<longrightarrow> response env = Inl e \<longrightarrow> should_run (fst (iteration w resumed env)) \<longrightarrow>
      (\<exists>rest. snd (snd (snd (main_loop w resumed (env # env2 # envs)))) =
         [CheckinCall, PrintExc e, Sleep 1, CheckinCall] @ rest)) \<and>
   (\<not> exiting w \<longrightarrow> list_all (\<lambda>env. isl (response env) \<and> \<not> signal_received env) envs \<longrightarrow>
      \<not> fst (main_loop w resumed envs) \<and>
      count_event (Sleep 1) (snd (snd (snd (main_loop w resumed envs)))) = length envs \<and>
      count_event CheckinCall (snd (snd (snd (main_loop w resumed envs)))) = length envs) \<and>
   (fst (try_block w resumed env) = Some e' \<longrightarrow>
      (\<exists>evs. snd (snd (iteration w resumed env)) = evs @ [PrintExc e', Sleep 1])) \<and>
   count_event LogConnected (snd (snd (iteration w resumed env))) =
      (if fst (try_block w resumed env) = None \<and> \<not> last_checkin_successful w then 1 else 0) \<and>
   last_checkin_successful (fst (iteration w resumed env)) =
      (fst (try_block w resumed env) = None) \<and>
   count_event LogConnected (snd (snd (snd (main_loop w resumed envs)))) =
      restorations (last_checkin_successful w) (pass_results w resumed envs)"
proof -
  have a: "response env = Inl e \<longrightarrow>
      iteration w resumed env =
        (other_threads env (w\<lparr>last_checkin_successful := False\<rparr>), resumed,
         [CheckinCall, PrintExc e, Sleep 1])"
    by (simp add: failed_checkin_iteration)
  have b: "should_run w \<longrightarrow> response env = Inl e \<longrightarrow>
      should_run (fst (iteration w resumed env)) \<longrightarrow>
      (\<exists>rest. snd (snd (snd (main_loop w resumed (env # env2 # envs)))) =
         [CheckinCall, PrintExc e, Sleep 1, CheckinCall] @ rest)"
    using next_attempt [of w env e resumed env2 envs] by blast
  have c: "\<not> exiting w \<longrightarrow>
      list_all (\<lambda>env. isl (response env) \<and> \<not> signal_received env) envs \<longrightarrow>
      \<not> fst (main_loop w resumed envs) \<and>
      count_event (Sleep 1) (snd (snd (snd (main_loop w resumed envs)))) = length envs \<and>
      count_event CheckinCall (snd (snd (snd (main_loop w resumed envs)))) = length envs"
    using failed_checkins_loop [of w envs resumed] by blast
  have d: "fst (try_block w resumed env) = Some e' \<longrightarrow>
      (\<exists>evs. snd (snd (iteration w resumed env)) = evs @ [PrintExc e', Sleep 1])"
    by (cases "try_block w resumed env") (auto simp: iteration_def)
  from a b c d iteration_facts [of w resumed env] main_loop_restorations [of w resumed envs]
  show ?thesis by blast
qed

text \<open>
  A worker whose check-in fails three times, and one whose passes fail twice, succeed
  twice, fail once and succeed again: two messages of restored connectivity.
\<close>

theorem checkin_retry_and_connected_log_witness:
  "(let w = Worker_init {0, 1} {};
        failing = \<lparr>response = Inl BundleServiceException, choose_cpu = Min, choose_gpu = Min,
                   run_started = True, handler_raises = None, resume_raises = None,
                   previous_runs = [], resume_save_raises = None, save_state_raises = None,
                   iter_order = sorted_list_of_set, finishing = [], signal_received = False\<rparr>;
        quiet = failing\<lparr>response := Inr None\<rparr>
    in should_run w \<and> \<not> exiting w \<and> response failing = Inl BundleServiceException \<and>
       list_all (\<lambda>env. isl (response env) \<and> \<not> signal_received env)
         [failing, failing, failing] \<and>
       iteration w False failing =
         (w, False, [CheckinCall, PrintExc BundleServiceException, Sleep 1]) \<and>
       \<not> fst (main_loop w False [failing, failing, failing]) \<and>
       count_event (Sleep 1) (snd (snd (snd (main_loop w False [failing, failing, failing])))) = 3 \<and>
       fst (try_block w False failing) = Some BundleServiceException \<and>
       fst (try_block w False quiet) = None \<and>
       count_event LogConnected (snd (snd (iteration w False quiet))) = 1 \<and>
       pass_results w False [failing, failing, quiet, quiet, failing, quiet] =
         [False, False, True, True, False, True] \<and>
       restorations False [False, False, True, True, False, True] = 2 \<and>
       count_event LogConnected
         (snd (snd (snd (main_loop w False [failing, failing, quiet, quiet, failing, quiet])))) = 2)"
proof -
  let ?w = "Worker_init {0, 1} {}"
  let ?failing = "\<lparr>response = Inl BundleServiceException, choose_cpu = Min, choose_gpu = Min,
                   run_started = True, handler_raises = None, resume_raises = None,
                   previous_runs = [], resume_save_raises = None, save_state_raises = None,
                   iter_order = sorted_list_of_set, finishing = [], signal_received = False\<rparr>"
  let ?quiet = "?failing\<lparr>response := Inr None\<rparr>"
  let ?envs = "[?failing, ?failing, ?quiet, ?quiet, ?failing, ?quiet]"
  have h: "should_run ?w" "\<not> exiting ?w" "response ?failing = Inl BundleServiceException"
    "list_all (\<lambda>env. isl (response env) \<and> \<not> signal_received env) [?failing, ?failing, ?failing]"
    by (simp_all add: should_run_def is_exiting_def Worker_init_def)
  have t: "fst (try_block ?w False ?failing) = Some BundleServiceException"
    "fst (try_block ?w False ?quiet) = None"
    by (simp_all add: try_block_def checkin_def resume_previous_runs_def Worker_init_def)
  have f: "\<not> last_checkin_successful ?w"
    "other_threads ?failing (?w\<lparr>last_checkin_successful := False\<rparr>) = ?w"
    by (simp_all add: Worker_init_def other_threads_def)
  have p: "pass_results ?w False ?envs = [False, False, True, True, False, True]"
    by code_simp
  have r: "restorations False [False, False, True, True, False, True] = 2"
    by simp
  note t1 = checkin_retry_and_connected_log
         [where w = ?w and env = ?failing and e = BundleServiceException and resumed = False
            and envs = "[?failing, ?failing, ?failing]"]
  note t2 = checkin_retry_and_connected_log [where w = ?w and env = ?quiet and resumed = False
            and envs = ?envs]
  from t1 h f have a: "iteration ?w False ?failing =
         (?w, False, [CheckinCall, PrintExc BundleServiceException, Sleep 1])"
    "\<not> fst (main_loop ?w False [?failing, ?failing, ?failing])"
    "count_event (Sleep 1) (snd (snd (snd (main_loop ?w False [?failing, ?failing, ?failing])))) = 3"
    by simp_all
  from t2 t f have b: "count_event LogConnected (snd (snd (iteration ?w False ?quiet))) = 1"
    by simp
  from t2 p r f have c: "count_event LogConnected (snd (snd (snd (main_loop ?w False ?envs)))) = 2"
    by simp
  from h t a b c p r show ?thesis by (simp only: Let_def simp_thms)
qed

text \<open>
  C8 as the specification words it, with the message logged on every successful check-in
  that finds the flag false, fails. At the first pass of a worker with two cpus the
  check-in returns a run message and the run starts on cpu \<open>0\<close>; \<^verbatim>\<open>resume_previous_runs\<close>
  then finds cpu \<open>0\<close> of that run not in the free set and raises \<^verbatim>\<open>KeyError\<close>: the
  check-in has succeeded, the flag was false, and the pass ends with the traceback and the
  sleep, without the message. The same happens when the check-in returns no message and
  \<^verbatim>\<open>save_state\<close> raises.
\<close>

theorem connected_log_counterexample:
  "fst (checkin (Worker_init {0, 1} {})
          \<lparr>response = Inr (Some (RunMessage ''u'' 1 0)), choose_cpu = Min, choose_gpu = Min,
           run_started = True, handler_raises = None, resume_raises = None,
           previous_runs = [], resume_save_raises = None, save_state_raises = None,
           iter_order = sorted_list_of_set, finishing = [], signal_received = False\<rparr>) = None \<and>
   \<not> last_checkin_successful (Worker_init {0, 1} {}) \<and>
   snd (snd (iteration (Worker_init {0, 1} {}) False
          \<lparr>response = Inr (Some (RunMessage ''u'' 1 0)), choose_cpu = Min, choose_gpu = Min,
           run_started = True, handler_raises = None, resume_raises = None,
           previous_runs = [], resume_save_raises = None, save_state_raises = None,
           iter_order = sorted_list_of_set, finishing = [], signal_received = False\<rparr>)) =
     [CheckinCall, RunCreated ''u'' {0} {}, RunStarted ''u'', PrintExc KeyError, Sleep 1] \<and>
   fst (checkin (Worker_init {0, 1} {})
          \<lparr>response = Inr None, choose_cpu = Min, choose_gpu = Min,
           run_started = True, handler_raises = None, resume_raises = None,
           previous_runs = [], resume_save_raises = None,
           save_state_raises = Some (OtherException ''IOError''),
           iter_order = sorted_list_of_set, finishing = [], signal_received = False\<rparr>) = None \<and>
   snd (snd (iteration (Worker_init {0, 1} {}) False
          \<lparr>response = Inr None, choose_cpu = Min, choose_gpu = Min,
           run_started = True, handler_raises = None, resume_raises = None,
           previous_runs = [], resume_save_raises = None,
           save_state_raises = Some (OtherException ''IOError''),
           iter_order = sorted_list_of_set, finishing = [], signal_received = False\<rparr>)) =
     [CheckinCall, SaveState, PrintExc (OtherException ''IOError''), Sleep 1]"
  by code_simp




end
